theory Spec2Isabelle
  imports Main "HOL-Library.Word"
begin

section \<open>Tokens, positions and strings\<close>

text \<open>
  Modelled from the spec: the file token.go (the \<open>Token\<close> type, its constants and the
  \<open>keywordTokens\<close> table) is not among the sources. The constructors below are the
  token kinds that lexer.go names, which are also those of the spec's data model; the
  keyword tokens of the spec's list are one kind per keyword, written \<open>KEYWORD k\<close> for
  the keyword spelled \<open>k\<close>.
\<close>

datatype token =
    ILLEGAL | EOF | NEWLINE | SEMICOLON | COMMA | COLON
  | LBRACE | RBRACE | LBRACKET | RBRACKET | LPAREN | RPAREN
  | ASSIGN | ADD_ASSIGN | SUB_ASSIGN | MUL_ASSIGN | DIV_ASSIGN | MOD_ASSIGN | POW_ASSIGN
  | EQUALS | NOT_EQUALS | LESS | LTE | GREATER | GTE | MATCH | NOT_MATCH
  | AND | OR | NOT | QUESTION | DOLLAR | INCR | DECR | APPEND | PIPE
  | ADD | SUB | MUL | DIV | MOD | POW
  | NUMBER | STRING | REGEX | NAME
  | KEYWORD string

type_synonym rune = int
type_synonym byte = "8 word"

text \<open>A rune constant of the source, \<open>'/'\<close> for example, is \<open>rune_of CHR ''/''\<close>.\<close>

abbreviation rune_of :: "char \<Rightarrow> rune" where
  "rune_of c \<equiv> of_char c"

text \<open>
  A Go string is either \<open>string(runes)\<close> (a string constant is the runes of its
  characters), or the result of \<open>fmt.Sprintf\<close>, kept as the format with its arguments.
  The empty string is \<open>Str []\<close>; none of the formats of lexer.go renders to it.
\<close>

datatype fmtarg = ArgRune rune | ArgByte byte | ArgToken token | ArgString "rune list"

datatype gostring = Str "rune list" | Sprintf string "fmtarg list"

definition lit :: "string \<Rightarrow> gostring" where
  "lit s = Str (map of_char s)"

text \<open>
  Modelled from the spec: the table \<open>keywordTokens\<close> of token.go, with the keywords
  that the spec's data model lists.
\<close>

definition keyword_names :: "string list" where
  "keyword_names =
    [''BEGIN'', ''END'', ''if'', ''else'', ''while'', ''for'', ''do'', ''break'',
     ''continue'', ''next'', ''exit'', ''return'', ''function'', ''in'', ''delete'',
     ''getline'', ''print'', ''printf'', ''sub'', ''gsub'', ''split'', ''sprintf'',
     ''length'', ''substr'', ''index'', ''match'', ''tolower'', ''toupper'', ''sin'',
     ''cos'', ''atan2'', ''exp'', ''log'', ''sqrt'', ''int'', ''rand'', ''srand'',
     ''system'', ''close'', ''fflush'']"

definition keywordTokens :: "rune list \<Rightarrow> token option" where
  "keywordTokens name = map_of (map (\<lambda>k. (map of_char k, KEYWORD k)) keyword_names) name"

record position =
  Line :: int
  Column :: int

record lexer =
  src :: "byte list"
  offset :: nat
  ch :: rune
  errorMsg :: gostring
  pos :: position
  nextPos :: position
  hadSpace :: bool
  lastTok :: token

type_synonym result = "position \<times> token \<times> gostring"

section \<open>Decoding UTF-8\<close>

text \<open>
  \<open>utf8.DecodeRune\<close> of Go's standard library: the first rune of a byte slice and its
  width in bytes; \<open>(RuneError, 0)\<close> for the empty slice and \<open>(RuneError, 1)\<close> for an
  encoding that is invalid, too short, overlong, a surrogate or beyond U+10FFFF. The
  masks and shifts of the library are written with \<open>mod\<close> and multiplication.
\<close>

definition RuneError :: rune where
  "RuneError = 0xFFFD"

definition cont_byte :: "byte \<Rightarrow> int" where
  "cont_byte b = uint b mod 64"

fun DecodeRune :: "byte list \<Rightarrow> rune \<times> nat" where
  "DecodeRune [] = (RuneError, 0)"
| "DecodeRune (p0 # ps) =
    (if p0 < 0x80 then (uint p0, 1)
     else if p0 < 0xC2 \<or> 0xF4 < p0 then (RuneError, 1)
     else
       (let sz = (if p0 < 0xE0 then 2 else if p0 < 0xF0 then 3 else 4 :: nat);
            lo = (if p0 = 0xE0 then 0xA0 else if p0 = 0xF0 then 0x90 else 0x80);
            hi = (if p0 = 0xED then 0x9F else if p0 = 0xF4 then 0x8F else 0xBF)
        in if length (p0 # ps) < sz then (RuneError, 1)
           else
             (let b1 = ps ! 0 in
              if b1 < lo \<or> hi < b1 then (RuneError, 1)
              else if sz \<le> 2 then ((uint p0 mod 32) * 64 + cont_byte b1, 2)
              else
                (let b2 = ps ! 1 in
                 if b2 < 0x80 \<or> 0xBF < b2 then (RuneError, 1)
                 else if sz \<le> 3
                   then ((uint p0 mod 16) * 4096 + cont_byte b1 * 64 + cont_byte b2, 3)
                 else
                   (let b3 = ps ! 2 in
                    if b3 < 0x80 \<or> 0xBF < b3 then (RuneError, 1)
                    else ((uint p0 mod 8) * 262144 + cont_byte b1 * 4096
                            + cont_byte b2 * 64 + cont_byte b3, 4))))))"

section \<open>The lexer\<close>

text \<open>
  The file lexer.go holds two lexers, one after the other: an earlier one in its lines 1
  to 318, and a later one in its lines 319 to 686, which has the fields \<open>hadSpace\<close> and
  \<open>lastTok\<close>, the functions \<open>HadSpace\<close> and \<open>ScanRegex\<close>, and is the lexer that the
  spec describes. This section is the later lexer. The earlier one follows in a section
  of its own, and its definitions carry the suffix \<open>_v1\<close>. The two have the same text for
  \<open>next\<close>, \<open>isNameStart\<close> and \<open>choice\<close>, for the loops over a comment and over a
  name, and for the case of a number; these are defined once, here.
\<close>

text \<open>
  \<open>next\<close> of lexer.go (the name is a keyword here). The slice \<open>l.src[l.offset:]\<close> is
  \<open>drop (offset l) (src l)\<close>: the two agree while \<open>offset l \<le> length (src l)\<close>, which
  \<open>next\<close> maintains. Line and column are Go's 64-bit \<open>int\<close>, here unbounded.
\<close>

definition next_ch :: "lexer \<Rightarrow> lexer" where
  "next_ch l0 =
    (let l = l0\<lparr>pos := nextPos l0\<rparr>;
         (r, size) = DecodeRune (drop (offset l) (src l))
     in if size = 0 then l\<lparr>ch := - 1\<rparr>
        else if r = RuneError then
          l\<lparr>ch := - 1,
            errorMsg := Sprintf ''invalid UTF-8 byte 0x%02x'' [ArgByte (src l ! offset l)]\<rparr>
        else
          (let l1 = (if r = rune_of CHR 0x0A
                     then l\<lparr>nextPos := \<lparr>Line = Line (nextPos l) + 1, Column = 1\<rparr>\<rparr>
                     else l\<lparr>nextPos := (nextPos l)\<lparr>Column := Column (nextPos l) + 1\<rparr>\<rparr>)
           in l1\<lparr>ch := r, offset := offset l1 + size\<rparr>))"

definition NewLexer :: "token \<Rightarrow> byte list \<Rightarrow> lexer" where
  "NewLexer tok0 s =
    next_ch \<lparr>src = s, offset = 0, ch = 0, errorMsg = Str [],
             pos = \<lparr>Line = 0, Column = 0\<rparr>, nextPos = \<lparr>Line = 1, Column = 1\<rparr>,
             hadSpace = False, lastTok = tok0\<rparr>"

definition HadSpace :: "lexer \<Rightarrow> bool" where
  "HadSpace l = hadSpace l"

definition isNameStart :: "rune \<Rightarrow> bool" where
  "isNameStart c \<longleftrightarrow>
     c = rune_of CHR ''_'' \<or> (rune_of CHR ''a'' \<le> c \<and> c \<le> rune_of CHR ''z'')
       \<or> (rune_of CHR ''A'' \<le> c \<and> c \<le> rune_of CHR ''Z'')"

definition isDigit :: "rune \<Rightarrow> bool" where
  "isDigit c \<longleftrightarrow> rune_of CHR ''0'' \<le> c \<and> c \<le> rune_of CHR ''9''"

definition choice :: "lexer \<Rightarrow> rune \<Rightarrow> token \<Rightarrow> token \<Rightarrow> token \<times> lexer" where
  "choice l c one two = (if ch l = c then (two, next_ch l) else (one, l))"

text \<open>What is left to read: the bytes after the offset, and the current rune if there is one.\<close>

definition remaining :: "lexer \<Rightarrow> nat" where
  "remaining l = (length (src l) - offset l) + (if 0 \<le> ch l then 1 else 0)"

lemma DecodeRune_size_0: "snd (DecodeRune bs) = 0 \<longleftrightarrow> bs = []"
  by (cases bs) (simp_all add: Let_def)

lemma DecodeRune_size_le: "snd (DecodeRune bs) \<le> length bs"
  by (cases bs) (auto simp: Let_def Suc_le_eq)

lemma DecodeRune_nonneg: "0 \<le> fst (DecodeRune bs)"
  by (cases bs) (simp_all add: Let_def RuneError_def cont_byte_def)

lemma remaining_next:
  "remaining (next_ch l) + (if 0 \<le> ch l then 1 else 0) \<le> remaining l"
proof -
  obtain r n where d: "DecodeRune (drop (offset l) (src l)) = (r, n)"
    by fastforce
  have "n = 0 \<longleftrightarrow> drop (offset l) (src l) = []"
    using DecodeRune_size_0 [of "drop (offset l) (src l)"] d by simp
  with d show ?thesis
    by (auto simp: next_ch_def remaining_def Let_def)
qed

lemma remaining_next_le: "remaining (next_ch l) \<le> remaining l"
  using remaining_next [of l] by (simp split: if_splits)

lemma remaining_next_less: "0 \<le> ch l \<Longrightarrow> remaining (next_ch l) < remaining l"
  using remaining_next [of l] by simp

lemma remaining_hadSpace [simp]: "remaining (l\<lparr>hadSpace := b\<rparr>) = remaining l"
  by (simp add: remaining_def)

lemma isNameStart_nonneg: "isNameStart c \<Longrightarrow> 0 \<le> c"
  by (auto simp: isNameStart_def)

lemma isDigit_nonneg: "isDigit c \<Longrightarrow> 0 \<le> c"
  by (simp add: isDigit_def)

subsection \<open>The loops of \<open>scan\<close> and \<open>scanRegex\<close>\<close>

text \<open>
  The loop over spaces, tabs, carriage returns and line continuations. It gives the
  result of the early return, if any, and the lexer it leaves. The characters are
  \<open>' '\<close>, \<open>'\t'\<close> (0x09), \<open>'\r'\<close> (0x0D), \<open>'\\'\<close> (0x5C) and \<open>'\n'\<close> (0x0A).
\<close>

function skip_space :: "lexer \<Rightarrow> result option \<times> lexer" where
  "skip_space l =
    (if ch l = rune_of CHR '' '' \<or> ch l = rune_of CHR 0x09 \<or> ch l = rune_of CHR 0x0D
        \<or> ch l = rune_of CHR 0x5C
     then
       (let l1 = l\<lparr>hadSpace := True\<rparr> in
        if ch l1 = rune_of CHR 0x5C then
          (let l2 = next_ch l1;
               l3 = (if ch l2 = rune_of CHR 0x0D then next_ch l2 else l2)
           in if ch l3 \<noteq> rune_of CHR 0x0A
              then (Some (pos l3, ILLEGAL,
                      lit (''expected '' @ [CHR 0x5C] @ ''n after '' @ [CHR 0x5C]
                             @ '' line continuation'')), l3)
              else skip_space (next_ch l3))
        else skip_space (next_ch l1))
     else (None, l))"
  by pat_completeness auto
termination
proof (relation "measure remaining", goal_cases)
  case 1
  show ?case by simp
next
  case (2 l l1 l2 l3)
  have "remaining l3 \<le> remaining l2"
    using 2 remaining_next_le [of l2] by (simp split: if_splits)
  moreover have "remaining l2 < remaining l"
    using 2 remaining_next_less [of l1] by simp
  moreover have "remaining (next_ch l3) \<le> remaining l3"
    by (rule remaining_next_le)
  ultimately show ?case by simp
next
  case (3 l l1)
  then show ?case
    using remaining_next_less [of l1] by auto
qed

text \<open>The loop that skips a comment, up to the newline or the end.\<close>

function skip_comment :: "lexer \<Rightarrow> lexer" where
  "skip_comment l =
    (if ch l \<noteq> rune_of CHR 0x0A \<and> 0 \<le> ch l then skip_comment (next_ch l) else l)"
  by pat_completeness auto
termination
  by (relation "measure remaining") (auto simp: remaining_next_less)

text \<open>The loop that collects the rest of a name.\<close>

function name_loop :: "lexer \<Rightarrow> rune list \<Rightarrow> rune list \<times> lexer" where
  "name_loop l runes =
    (if isNameStart (ch l) \<or> isDigit (ch l)
     then name_loop (next_ch l) (runes @ [ch l])
     else (runes, l))"
  by pat_completeness auto
termination
  by (relation "measure (\<lambda>(l, runes). remaining l)")
     (auto simp: remaining_next_less isNameStart_nonneg isDigit_nonneg)

text \<open>The loops over digits: the one of the fraction also sets \<open>gotDigit\<close>.\<close>

function digits_loop :: "lexer \<Rightarrow> rune list \<Rightarrow> rune list \<times> lexer" where
  "digits_loop l runes =
    (if isDigit (ch l) then digits_loop (next_ch l) (runes @ [ch l]) else (runes, l))"
  by pat_completeness auto
termination
  by (relation "measure (\<lambda>(l, runes). remaining l)")
     (auto simp: remaining_next_less isDigit_nonneg)

function fraction_loop :: "lexer \<Rightarrow> rune list \<Rightarrow> bool \<Rightarrow> rune list \<times> bool \<times> lexer" where
  "fraction_loop l runes gotDigit =
    (if isDigit (ch l) then fraction_loop (next_ch l) (runes @ [ch l]) True
     else (runes, gotDigit, l))"
  by pat_completeness auto
termination
  by (relation "measure (\<lambda>(l, runes, g). remaining l)")
     (auto simp: remaining_next_less isDigit_nonneg)

text \<open>
  The loop of a string literal opened by the quote \<open>q\<close>, which is \<open>'"'\<close> (0x22) or
  \<open>'\''\<close> (0x27): the result of an early return, or the runes of the string.
\<close>

function string_loop :: "rune \<Rightarrow> lexer \<Rightarrow> rune list \<Rightarrow> (result + rune list) \<times> lexer" where
  "string_loop q l runes =
    (if ch l \<noteq> q then
       (let c = ch l in
        if c < 0 then (Inl (pos l, ILLEGAL, lit ''didn't find end quote in string''), l)
        else if c = rune_of CHR 0x0D \<or> c = rune_of CHR 0x0A
          then (Inl (pos l, ILLEGAL, lit ''can't have newline in string''), l)
        else if c = rune_of CHR 0x5C then
          (let l1 = next_ch l;
               c1 = (if ch l1 = rune_of CHR ''t'' then rune_of CHR 0x09
                     else if ch l1 = rune_of CHR ''r'' then rune_of CHR 0x0D
                     else if ch l1 = rune_of CHR ''n'' then rune_of CHR 0x0A
                     else ch l1)
           in string_loop q (next_ch l1) (runes @ [c1]))
        else string_loop q (next_ch l) (runes @ [c]))
     else (Inr runes, l))"
  by pat_completeness auto
termination
proof (relation "measure (\<lambda>(q, l, runes). remaining l)", goal_cases)
  case 1
  show ?case by simp
next
  case (2 q l runes c l1 c1)
  then show ?case
    using remaining_next_less [of l] remaining_next_le [of l1] by simp
next
  case (3 q l runes c)
  then show ?case
    using remaining_next_less [of l] by simp
qed

text \<open>The loop of a regex, up to the closing slash.\<close>

function regex_loop :: "lexer \<Rightarrow> rune list \<Rightarrow> (result + rune list) \<times> lexer" where
  "regex_loop l runes =
    (if ch l \<noteq> rune_of CHR ''/'' then
       (let c = ch l in
        if c < 0 then (Inl (pos l, ILLEGAL, lit ''didn't find end slash in regex''), l)
        else if c = rune_of CHR 0x0D \<or> c = rune_of CHR 0x0A
          then (Inl (pos l, ILLEGAL, lit ''can't have newline in regex''), l)
        else if c = rune_of CHR 0x5C then
          (let l1 = next_ch l;
               runes1 = (if ch l1 \<noteq> rune_of CHR ''/'' then runes @ [rune_of CHR 0x5C]
                         else runes)
           in regex_loop (next_ch l1) (runes1 @ [ch l1]))
        else regex_loop (next_ch l) (runes @ [c]))
     else (Inr runes, l))"
  by pat_completeness auto
termination
proof (relation "measure (\<lambda>(l, runes). remaining l)", goal_cases)
  case 1
  show ?case by simp
next
  case (2 l runes c l1 runes1)
  then show ?case
    using remaining_next_less [of l] remaining_next_le [of l1] by simp
next
  case (3 l runes c)
  then show ?case
    using remaining_next_less [of l] by simp
qed

text \<open>The loops are unfolded one step at a time, by hand.\<close>

declare skip_space.simps [simp del] skip_comment.simps [simp del] name_loop.simps [simp del]
  digits_loop.simps [simp del] fraction_loop.simps [simp del] string_loop.simps [simp del]
  regex_loop.simps [simp del]

subsection \<open>\<open>scan\<close>, \<open>Scan\<close>, \<open>scanRegex\<close> and \<open>ScanRegex\<close>\<close>

text \<open>\<open>return pos, tok, val\<close> with the empty \<open>val\<close>.\<close>

definition emit :: "position \<Rightarrow> token \<Rightarrow> lexer \<Rightarrow> result \<times> lexer" where
  "emit p tok l = ((p, tok, Str []), l)"

text \<open>
  The case of a number, in its three parts; \<open>c\<close> is the first character, a digit or
  \<open>'.'\<close>, and \<open>l\<close> the lexer after it. First the digits before the point and the point,
  with the value of \<open>gotDigit\<close>.
\<close>

definition number_int :: "rune \<Rightarrow> lexer \<Rightarrow> rune list \<times> bool \<times> lexer" where
  "number_int c l =
    (if c \<noteq> rune_of CHR ''.'' then
       (case digits_loop l [c] of
          (runes, l1) \<Rightarrow>
            if ch l1 = rune_of CHR ''.'' then (runes @ [ch l1], True, next_ch l1)
            else (runes, True, l1))
     else ([c], False, l))"

text \<open>Last the exponent, after the digits of the fraction.\<close>

definition number_exp :: "lexer \<Rightarrow> rune list \<Rightarrow> rune list \<times> lexer" where
  "number_exp l runes =
    (if ch l = rune_of CHR ''e'' \<or> ch l = rune_of CHR ''E'' then
       (let runes1 = runes @ [ch l]; l1 = next_ch l in
        if ch l1 = rune_of CHR ''+'' \<or> ch l1 = rune_of CHR ''-''
        then digits_loop (next_ch l1) (runes1 @ [ch l1])
        else digits_loop l1 runes1)
     else (runes, l))"

definition scan_number :: "position \<Rightarrow> rune \<Rightarrow> lexer \<Rightarrow> result \<times> lexer" where
  "scan_number p c l =
    (case number_int c l of
       (runes1, gotDigit1, l1) \<Rightarrow>
         (case fraction_loop l1 runes1 gotDigit1 of
            (runes2, gotDigit, l2) \<Rightarrow>
              if \<not> gotDigit then ((pos l2, ILLEGAL, lit ''expected digits''), l2)
              else
                (case number_exp l2 runes2 of
                   (runes3, l3) \<Rightarrow> ((p, NUMBER, Str runes3), l3))))"

text \<open>The case of a string: \<open>c\<close> is the opening quote.\<close>

definition scan_string :: "position \<Rightarrow> rune \<Rightarrow> lexer \<Rightarrow> result \<times> lexer" where
  "scan_string p c l =
    (case string_loop c l [] of
       (Inl r, l1) \<Rightarrow> (r, l1)
     | (Inr runes, l1) \<Rightarrow> ((p, STRING, Str runes), next_ch l1))"

text \<open>
  The \<open>switch ch\<close> of \<open>scan\<close>: \<open>p\<close> is the position of the character \<open>c\<close>, and \<open>l\<close> the
  lexer after it. The cases \<open>'0'\<close> to \<open>'9'\<close> are \<open>isDigit c\<close>.
\<close>

definition scan_switch :: "position \<Rightarrow> rune \<Rightarrow> lexer \<Rightarrow> result \<times> lexer" where
  "scan_switch p c l =
    (if c = rune_of CHR 0x0A then emit p NEWLINE l
     else if c = rune_of CHR '':'' then emit p COLON l
     else if c = rune_of CHR '','' then emit p COMMA l
     else if c = rune_of CHR ''/'' then
       (case choice l (rune_of CHR ''='') DIV DIV_ASSIGN of (tok, l1) \<Rightarrow> emit p tok l1)
     else if c = rune_of CHR ''{'' then emit p LBRACE l
     else if c = rune_of CHR ''['' then emit p LBRACKET l
     else if c = rune_of CHR ''('' then emit p LPAREN l
     else if c = rune_of CHR ''-'' then
       (if ch l = rune_of CHR ''-'' then emit p DECR (next_ch l)
        else if ch l = rune_of CHR ''='' then emit p SUB_ASSIGN (next_ch l)
        else emit p SUB l)
     else if c = rune_of CHR ''%'' then
       (case choice l (rune_of CHR ''='') MOD MOD_ASSIGN of (tok, l1) \<Rightarrow> emit p tok l1)
     else if c = rune_of CHR ''+'' then
       (if ch l = rune_of CHR ''+'' then emit p INCR (next_ch l)
        else if ch l = rune_of CHR ''='' then emit p ADD_ASSIGN (next_ch l)
        else emit p ADD l)
     else if c = rune_of CHR ''}'' then emit p RBRACE l
     else if c = rune_of CHR '']'' then emit p RBRACKET l
     else if c = rune_of CHR '')'' then emit p RPAREN l
     else if c = rune_of CHR ''*'' then
       (if ch l = rune_of CHR ''*'' then
          (case choice (next_ch l) (rune_of CHR ''='') POW POW_ASSIGN of
             (tok, l1) \<Rightarrow> emit p tok l1)
        else if ch l = rune_of CHR ''='' then emit p MUL_ASSIGN (next_ch l)
        else emit p MUL l)
     else if c = rune_of CHR ''='' then
       (case choice l (rune_of CHR ''='') ASSIGN EQUALS of (tok, l1) \<Rightarrow> emit p tok l1)
     else if c = rune_of CHR ''^'' then
       (case choice l (rune_of CHR ''='') POW POW_ASSIGN of (tok, l1) \<Rightarrow> emit p tok l1)
     else if c = rune_of CHR ''!'' then
       (if ch l = rune_of CHR ''='' then emit p NOT_EQUALS (next_ch l)
        else if ch l = rune_of CHR ''~'' then emit p NOT_MATCH (next_ch l)
        else emit p NOT l)
     else if c = rune_of CHR ''<'' then
       (case choice l (rune_of CHR ''='') LESS LTE of (tok, l1) \<Rightarrow> emit p tok l1)
     else if c = rune_of CHR ''>'' then
       (if ch l = rune_of CHR ''='' then emit p GTE (next_ch l)
        else if ch l = rune_of CHR ''>'' then emit p APPEND (next_ch l)
        else emit p GREATER l)
     else if c = rune_of CHR ''~'' then emit p MATCH l
     else if c = rune_of CHR ''?'' then emit p QUESTION l
     else if c = rune_of CHR '';'' then emit p SEMICOLON l
     else if c = rune_of CHR ''$'' then emit p DOLLAR l
     else if c = rune_of CHR ''&'' then
       (case choice l (rune_of CHR ''&'') ILLEGAL AND of
          (tok, l1) \<Rightarrow>
            if tok = ILLEGAL
            then ((pos l1, ILLEGAL,
                   Sprintf (''unexpected %q after '' @ [CHR 0x27, CHR ''&'', CHR 0x27])
                     [ArgRune (ch l1)]), l1)
            else emit p tok l1)
     else if c = rune_of CHR ''|'' then
       (case choice l (rune_of CHR ''|'') PIPE OR of (tok, l1) \<Rightarrow> emit p tok l1)
     else if isDigit c \<or> c = rune_of CHR ''.'' then scan_number p c l
     else if c = rune_of CHR 0x22 \<or> c = rune_of CHR 0x27 then scan_string p c l
     else ((p, ILLEGAL, Sprintf ''unexpected %q'' [ArgRune c]), l))"

text \<open>
  \<open>scan\<close> in two parts. The first skips what stands before a token: it resets
  \<open>hadSpace\<close>, runs the loop over spaces and then skips a comment.
\<close>

definition skip_blank :: "lexer \<Rightarrow> result option \<times> lexer" where
  "skip_blank l =
    (case skip_space (l\<lparr>hadSpace := False\<rparr>) of
       (Some r, l1) \<Rightarrow> (Some r, l1)
     | (None, l1) \<Rightarrow>
         (None, if ch l1 = rune_of CHR ''#'' then skip_comment (next_ch l1) else l1))"

text \<open>The second part scans the token at the current character.\<close>

definition scan_token :: "lexer \<Rightarrow> result \<times> lexer" where
  "scan_token l =
    (if ch l < 0 then
       (if errorMsg l \<noteq> Str [] then ((pos l, ILLEGAL, errorMsg l), l)
        else ((pos l, EOF, Str []), l))
     else
       (let p = pos l; c = ch l; l1 = next_ch l in
        if isNameStart c then
          (case name_loop l1 [c] of
             (name, l2) \<Rightarrow>
               (case keywordTokens name of
                  Some tok \<Rightarrow> ((p, tok, Str []), l2)
                | None \<Rightarrow> ((p, NAME, Str name), l2)))
        else scan_switch p c l1))"

definition scan :: "lexer \<Rightarrow> result \<times> lexer" where
  "scan l =
    (case skip_blank l of
       (Some r, l1) \<Rightarrow> (r, l1)
     | (None, l1) \<Rightarrow> scan_token l1)"

definition Scan :: "lexer \<Rightarrow> result \<times> lexer" where
  "Scan l = (case scan l of ((p, tok, val), l1) \<Rightarrow> ((p, tok, val), l1\<lparr>lastTok := tok\<rparr>))"

text \<open>\<open>scanRegex\<close> after its \<open>switch\<close>: \<open>p\<close> is the rewound position.\<close>

definition regex_rest :: "position \<Rightarrow> lexer \<Rightarrow> rune list \<Rightarrow> result \<times> lexer" where
  "regex_rest p l runes =
    (case regex_loop l runes of
       (Inl r, l1) \<Rightarrow> (r, l1)
     | (Inr runes1, l1) \<Rightarrow> ((p, REGEX, Str runes1), next_ch l1))"

definition scanRegex :: "lexer \<Rightarrow> result \<times> lexer" where
  "scanRegex l =
    (if lastTok l = DIV
       then regex_rest ((pos l)\<lparr>Column := Column (pos l) - 1\<rparr>) l []
     else if lastTok l = DIV_ASSIGN
       then regex_rest ((pos l)\<lparr>Column := Column (pos l) - 2\<rparr>) l [rune_of CHR ''='']
     else ((pos l, ILLEGAL,
            Sprintf ''unexpected %s preceding regex'' [ArgToken (lastTok l)]), l))"

definition ScanRegex :: "lexer \<Rightarrow> result \<times> lexer" where
  "ScanRegex l =
    (case scanRegex l of ((p, tok, val), l1) \<Rightarrow> ((p, tok, val), l1\<lparr>lastTok := tok\<rparr>))"

section \<open>The earlier lexer\<close>

text \<open>
  The lexer of the lines 1 to 318 of lexer.go. Its \<open>Lexer\<close> has the fields of the later
  one but \<open>hadSpace\<close> and \<open>lastTok\<close>; it is modelled on the same record, and its
  functions leave these two fields as they are. It has no \<open>ScanRegex\<close>: its \<open>Scan\<close>
  scans a regex itself.
\<close>

definition NewLexer_v1 :: "byte list \<Rightarrow> lexer" where
  "NewLexer_v1 s =
    next_ch \<lparr>src = s, offset = 0, ch = 0, errorMsg = Str [],
             pos = \<lparr>Line = 0, Column = 0\<rparr>, nextPos = \<lparr>Line = 1, Column = 1\<rparr>,
             hadSpace = False, lastTok = ILLEGAL\<rparr>"

text \<open>The loop over spaces, tabs, carriage returns and line continuations.\<close>

function skip_space_v1 :: "lexer \<Rightarrow> result option \<times> lexer" where
  "skip_space_v1 l =
    (if ch l = rune_of CHR '' '' \<or> ch l = rune_of CHR 0x09 \<or> ch l = rune_of CHR 0x0D
        \<or> ch l = rune_of CHR 0x5C
     then
       (if ch l = rune_of CHR 0x5C then
          (let l2 = next_ch l;
               l3 = (if ch l2 = rune_of CHR 0x0D then next_ch l2 else l2)
           in if ch l3 \<noteq> rune_of CHR 0x0A
              then (Some (pos l3, ILLEGAL,
                      lit (''expected '' @ [CHR 0x5C] @ ''n after '' @ [CHR 0x5C]
                             @ '' line continuation'')), l3)
              else skip_space_v1 (next_ch l3))
        else skip_space_v1 (next_ch l))
     else (None, l))"
  by pat_completeness auto
termination
proof (relation "measure remaining", goal_cases)
  case 1
  show ?case by simp
next
  case (2 l l2 l3)
  have "remaining l3 \<le> remaining l2"
    using 2 remaining_next_le [of l2] by (simp split: if_splits)
  moreover have "remaining l2 < remaining l"
    using 2 remaining_next_less [of l] by simp
  moreover have "remaining (next_ch l3) \<le> remaining l3"
    by (rule remaining_next_le)
  ultimately show ?case by simp
next
  case (3 l)
  then show ?case
    using remaining_next_less [of l] by auto
qed

text \<open>
  The loop of a string literal, which only a double quote opens: an escape other than
  \<open>\"\<close>, \<open>\\\<close>, \<open>\t\<close>, \<open>\r\<close> and \<open>\n\<close> is an error.
\<close>

function string_loop_v1 :: "lexer \<Rightarrow> rune list \<Rightarrow> (result + rune list) \<times> lexer" where
  "string_loop_v1 l runes =
    (if ch l \<noteq> rune_of CHR 0x22 then
       (let c = ch l in
        if c < 0 then (Inl (pos l, ILLEGAL, lit ''didn't find end quote in string''), l)
        else if c = rune_of CHR 0x0D \<or> c = rune_of CHR 0x0A
          then (Inl (pos l, ILLEGAL, lit ''can't have newline in string''), l)
        else if c = rune_of CHR 0x5C then
          (let l1 = next_ch l in
           if ch l1 = rune_of CHR 0x22 \<or> ch l1 = rune_of CHR 0x5C
             then string_loop_v1 (next_ch l1) (runes @ [ch l1])
           else if ch l1 = rune_of CHR ''t''
             then string_loop_v1 (next_ch l1) (runes @ [rune_of CHR 0x09])
           else if ch l1 = rune_of CHR ''r''
             then string_loop_v1 (next_ch l1) (runes @ [rune_of CHR 0x0D])
           else if ch l1 = rune_of CHR ''n''
             then string_loop_v1 (next_ch l1) (runes @ [rune_of CHR 0x0A])
           else (Inl (pos l1, ILLEGAL,
                   Sprintf (''invalid string escape '' @ [CHR 0x5C] @ ''%c'') [ArgRune (ch l1)]),
                 l1))
        else string_loop_v1 (next_ch l) (runes @ [c]))
     else (Inr runes, l))"
  by pat_completeness auto
termination
proof (relation "measure (\<lambda>(l, runes). remaining l)", goal_cases)
  case 1
  show ?case by simp
next
  case (2 l runes c l1)
  then show ?case
    using remaining_next_less [of l] remaining_next_le [of l1] by simp
next
  case (3 l runes c l1)
  then show ?case
    using remaining_next_less [of l] remaining_next_le [of l1] by simp
next
  case (4 l runes c l1)
  then show ?case
    using remaining_next_less [of l] remaining_next_le [of l1] by simp
next
  case (5 l runes c l1)
  then show ?case
    using remaining_next_less [of l] remaining_next_le [of l1] by simp
next
  case (6 l runes c)
  then show ?case
    using remaining_next_less [of l] by simp
qed

declare skip_space_v1.simps [simp del] string_loop_v1.simps [simp del]

text \<open>
  The case \<open>'/'\<close> of \<open>Scan\<close> decides between a regex and a division by the bytes of the
  source from \<open>prevOfs\<close>, which is \<open>l.offset - 1\<close>, up to the end of the line or of the
  source: the two \<open>bytes.IndexByte\<close> look for a newline and then, before it, for a
  slash. \<open>l\<close> is the lexer after the slash: in a lexer in use its offset is at least 1
  there, so that the subtraction is the one of the source.
\<close>

definition looksLikeRegex :: "lexer \<Rightarrow> bool" where
  "looksLikeRegex l \<longleftrightarrow>
     (let prevOfs = offset l - 1 in
      0x2F \<in> set (takeWhile (\<lambda>b. b \<noteq> 0x0A) (drop prevOfs (src l))))"

text \<open>The case of a string.\<close>

definition scan_string_v1 :: "position \<Rightarrow> lexer \<Rightarrow> result \<times> lexer" where
  "scan_string_v1 p l =
    (case string_loop_v1 l [] of
       (Inl r, l1) \<Rightarrow> (r, l1)
     | (Inr runes, l1) \<Rightarrow> ((p, STRING, Str runes), next_ch l1))"

text \<open>
  The \<open>switch ch\<close> of \<open>Scan\<close>: \<open>p\<close> is the position of the character \<open>c\<close>, and \<open>l\<close> the
  lexer after it. The loop of the regex is the one of \<open>scanRegex\<close>, and the case of a
  number is the one of \<open>scan\<close>.
\<close>

definition scan_switch_v1 :: "position \<Rightarrow> rune \<Rightarrow> lexer \<Rightarrow> result \<times> lexer" where
  "scan_switch_v1 p c l =
    (if c = rune_of CHR 0x0A then emit p NEWLINE l
     else if c = rune_of CHR '':'' then emit p COLON l
     else if c = rune_of CHR '','' then emit p COMMA l
     else if c = rune_of CHR ''/'' then
       (if looksLikeRegex l then regex_rest p l []
        else (case choice l (rune_of CHR ''='') DIV DIV_ASSIGN of (tok, l1) \<Rightarrow> emit p tok l1))
     else if c = rune_of CHR ''{'' then emit p LBRACE l
     else if c = rune_of CHR ''['' then emit p LBRACKET l
     else if c = rune_of CHR ''('' then emit p LPAREN l
     else if c = rune_of CHR ''-'' then
       (if ch l = rune_of CHR ''-'' then emit p DECR (next_ch l)
        else if ch l = rune_of CHR ''='' then emit p SUB_ASSIGN (next_ch l)
        else emit p SUB l)
     else if c = rune_of CHR ''%'' then
       (case choice l (rune_of CHR ''='') MOD MOD_ASSIGN of (tok, l1) \<Rightarrow> emit p tok l1)
     else if c = rune_of CHR ''+'' then
       (if ch l = rune_of CHR ''+'' then emit p INCR (next_ch l)
        else if ch l = rune_of CHR ''='' then emit p ADD_ASSIGN (next_ch l)
        else emit p ADD l)
     else if c = rune_of CHR ''}'' then emit p RBRACE l
     else if c = rune_of CHR '']'' then emit p RBRACKET l
     else if c = rune_of CHR '')'' then emit p RPAREN l
     else if c = rune_of CHR ''*'' then
       (if ch l = rune_of CHR ''*'' then
          (case choice (next_ch l) (rune_of CHR ''='') POW POW_ASSIGN of
             (tok, l1) \<Rightarrow> emit p tok l1)
        else if ch l = rune_of CHR ''='' then emit p MUL_ASSIGN (next_ch l)
        else emit p MUL l)
     else if c = rune_of CHR ''='' then
       (case choice l (rune_of CHR ''='') ASSIGN EQUALS of (tok, l1) \<Rightarrow> emit p tok l1)
     else if c = rune_of CHR ''^'' then
       (case choice l (rune_of CHR ''='') POW POW_ASSIGN of (tok, l1) \<Rightarrow> emit p tok l1)
     else if c = rune_of CHR ''!'' then
       (if ch l = rune_of CHR ''='' then emit p NOT_EQUALS (next_ch l)
        else if ch l = rune_of CHR ''~'' then emit p NOT_MATCH (next_ch l)
        else emit p NOT l)
     else if c = rune_of CHR ''<'' then
       (case choice l (rune_of CHR ''='') LESS LTE of (tok, l1) \<Rightarrow> emit p tok l1)
     else if c = rune_of CHR ''>'' then
       (case choice l (rune_of CHR ''='') GREATER GTE of (tok, l1) \<Rightarrow> emit p tok l1)
     else if c = rune_of CHR ''~'' then emit p MATCH l
     else if c = rune_of CHR ''?'' then emit p QUESTION l
     else if c = rune_of CHR '';'' then emit p SEMICOLON l
     else if c = rune_of CHR ''$'' then emit p DOLLAR l
     else if c = rune_of CHR ''&'' then
       (case choice l (rune_of CHR ''&'') ILLEGAL AND of
          (tok, l1) \<Rightarrow>
            if tok = ILLEGAL
            then ((pos l1, ILLEGAL,
                   Sprintf (''unexpected %q after '' @ [CHR 0x27, CHR ''&'', CHR 0x27])
                     [ArgRune (ch l1)]), l1)
            else emit p tok l1)
     else if c = rune_of CHR ''|'' then
       (case choice l (rune_of CHR ''|'') ILLEGAL OR of
          (tok, l1) \<Rightarrow>
            if tok = ILLEGAL
            then ((pos l1, ILLEGAL,
                   Sprintf (''unexpected %q after '' @ [CHR 0x27, CHR ''|'', CHR 0x27])
                     [ArgRune (ch l1)]), l1)
            else emit p tok l1)
     else if isDigit c \<or> c = rune_of CHR ''.'' then scan_number p c l
     else if c = rune_of CHR 0x22 then scan_string_v1 p l
     else ((p, ILLEGAL, Sprintf ''unexpected %q'' [ArgRune c]), l))"

text \<open>
  \<open>Scan\<close> in two parts, as \<open>scan\<close> of the later lexer is here. The first skips what stands
  before a token, the second scans the token at the current character. The tables
  \<open>unsupportedKeywords\<close> and \<open>keywordTokens\<close> of the earlier token.go, which is not
  among the sources, are the parameters \<open>uk\<close> and \<open>kw\<close>.
\<close>

definition skip_blank_v1 :: "lexer \<Rightarrow> result option \<times> lexer" where
  "skip_blank_v1 l =
    (case skip_space_v1 l of
       (Some r, l1) \<Rightarrow> (Some r, l1)
     | (None, l1) \<Rightarrow>
         (None, if ch l1 = rune_of CHR ''#'' then skip_comment (next_ch l1) else l1))"

definition scan_token_v1 ::
  "(rune list \<Rightarrow> bool) \<Rightarrow> (rune list \<Rightarrow> token option) \<Rightarrow> lexer \<Rightarrow> result \<times> lexer" where
  "scan_token_v1 uk kw l =
    (if ch l < 0 then
       (if errorMsg l \<noteq> Str [] then ((pos l, ILLEGAL, errorMsg l), l)
        else ((pos l, EOF, Str []), l))
     else
       (let p = pos l; c = ch l; l1 = next_ch l in
        if isNameStart c then
          (case name_loop l1 [c] of
             (name, l2) \<Rightarrow>
               if uk name then
                 ((p, ILLEGAL,
                   Sprintf ([CHR 0x27] @ ''%s'' @ [CHR 0x27] @ '' is not yet implemented'')
                     [ArgString name]), l2)
               else
                 (case kw name of
                    Some tok \<Rightarrow> ((p, tok, Str []), l2)
                  | None \<Rightarrow> ((p, NAME, Str name), l2)))
        else scan_switch_v1 p c l1))"

definition Scan_v1 ::
  "(rune list \<Rightarrow> bool) \<Rightarrow> (rune list \<Rightarrow> token option) \<Rightarrow> lexer \<Rightarrow> result \<times> lexer" where
  "Scan_v1 uk kw l =
    (case skip_blank_v1 l of
       (Some r, l1) \<Rightarrow> (r, l1)
     | (None, l1) \<Rightarrow> scan_token_v1 uk kw l1)"

section \<open>The command line\<close>

text \<open>
  \<open>main\<close> of the command. What it calls outside this file is a field of the record
  \<open>world\<close>: reading the standard input and a program file (\<open>None\<close> for an error of
  \<open>os.Open\<close> or \<open>ReadFrom\<close>), \<open>parser.ParseProgram\<close>, \<open>os.Create\<close>, the two
  profile writers, and \<open>Exec\<close> of the interpreter, with whether it returned no error
  and the \<open>ExitStatus\<close> after it. The process ends with \<open>os.Exit\<close> or with a panic:
  \<open>Exit n\<close> is the call \<open>os.Exit(n)\<close>, of which the operating system keeps the low
  bits as the status of the process, and after a panic the Go runtime ends the process
  with the status 2.
\<close>

datatype outcome = Exit int | Panic

datatype parse_result = ParseOk | ParseError position | OtherError

record cli =
  progFiles :: "string list"
  fieldSep :: string
  vars :: "string list"
  debug :: bool
  cpuprofile :: string
  memprofile :: string
  args :: "string list"

record world =
  helpStatus :: int
  readStdin :: "string option"
  readFile :: "string \<Rightarrow> string option"
  ParseProgram :: "string \<Rightarrow> parse_result"
  createFile :: "string \<Rightarrow> bool"
  StartCPUProfile :: bool
  WriteHeapProfile :: bool
  Exec :: "string \<Rightarrow> string \<Rightarrow> (string \<times> string) list \<Rightarrow> string list \<Rightarrow> bool \<times> int"

definition errorExit :: outcome where
  "errorExit = Exit 1"

subsection \<open>\<open>flag.Parse\<close>\<close>

text \<open>
  \<open>flag.Parse\<close> of Go's standard library, on the six flags that \<open>main\<close> declares: \<open>f\<close>
  and \<open>v\<close> collect their values (\<open>multiString.Set\<close> appends), \<open>F\<close>, \<open>cpuprofile\<close> and
  \<open>memprofile\<close> are strings, \<open>d\<close> is a boolean. The values before the command line is
  read are the defaults of the declarations.
\<close>

definition flag_defaults :: cli where
  "flag_defaults =
    \<lparr>progFiles = [], fieldSep = '' '', vars = [], debug = False, cpuprofile = [],
     memprofile = [], args = []\<rparr>"

text \<open>How \<open>flag.Parse\<close> fails: with an error, or at the flag \<open>-h\<close> or \<open>-help\<close>.\<close>

datatype flag_failure = BadFlag | HelpFlag

text \<open>\<open>strconv.ParseBool\<close>, which sets a boolean flag from \<open>-d=value\<close>.\<close>

definition ParseBool :: "string \<Rightarrow> bool option" where
  "ParseBool s =
    (if s \<in> set [''1'', ''t'', ''T'', ''TRUE'', ''true'', ''True''] then Some True
     else if s \<in> set [''0'', ''f'', ''F'', ''FALSE'', ''false'', ''False''] then Some False
     else None)"

text \<open>\<open>Set\<close> of the flags that take a value.\<close>

definition set_flag :: "cli \<Rightarrow> string \<Rightarrow> string \<Rightarrow> cli" where
  "set_flag c name v =
    (if name = ''f'' then c\<lparr>progFiles := progFiles c @ [v]\<rparr>
     else if name = ''F'' then c\<lparr>fieldSep := v\<rparr>
     else if name = ''v'' then c\<lparr>vars := vars c @ [v]\<rparr>
     else if name = ''cpuprofile'' then c\<lparr>cpuprofile := v\<rparr>
     else c\<lparr>memprofile := v\<rparr>)"

text \<open>
  \<open>parseOne\<close> of the package: it reads one flag from the arguments that are left and
  says whether it has seen one. An argument that is shorter than two characters or does
  not start with \<open>-\<close> ends the flags, and so does \<open>--\<close>, which is dropped. The name
  ends at the first \<open>=\<close>, which is not its first character, and the value follows it;
  without \<open>=\<close> the value of a flag that is no boolean is the next argument.
\<close>

definition parseOne :: "cli \<Rightarrow> string list \<Rightarrow> flag_failure + bool \<times> cli \<times> string list" where
  "parseOne c as =
    (case as of
       [] \<Rightarrow> Inr (False, c, [])
     | s # rest \<Rightarrow>
         if length s < 2 \<or> s ! 0 \<noteq> CHR ''-'' then Inr (False, c, as)
         else if s ! 1 = CHR ''-'' \<and> length s = 2 then Inr (False, c, rest)
         else
           (let numMinuses = (if s ! 1 = CHR ''-'' then 2 else 1 :: nat);
                name0 = drop numMinuses s
            in if name0 = [] \<or> name0 ! 0 = CHR ''-'' \<or> name0 ! 0 = CHR ''='' then Inl BadFlag
               else
                 (let hasValue = (CHR ''='' \<in> set name0);
                      name = takeWhile (\<lambda>x. x \<noteq> CHR ''='') name0;
                      val = tl (dropWhile (\<lambda>x. x \<noteq> CHR ''='') name0)
                  in if name \<notin> set [''f'', ''F'', ''v'', ''d'', ''cpuprofile'', ''memprofile'']
                     then (if name = ''help'' \<or> name = ''h'' then Inl HelpFlag else Inl BadFlag)
                     else if name = ''d'' then
                       (case ParseBool (if hasValue then val else ''true'') of
                          None \<Rightarrow> Inl BadFlag
                        | Some b \<Rightarrow> Inr (True, c\<lparr>debug := b\<rparr>, rest))
                     else if hasValue then Inr (True, set_flag c name val, rest)
                     else
                       (case rest of
                          [] \<Rightarrow> Inl BadFlag
                        | v # rest1 \<Rightarrow> Inr (True, set_flag c name v, rest1)))))"

lemma parseOne_shorter:
  "parseOne c as = Inr (True, c1, as1) \<Longrightarrow> length as1 < length as"
  by (auto simp: parseOne_def Let_def split: list.splits if_splits option.splits)

text \<open>
  The loop of \<open>Parse\<close>: flags are read as long as one is seen; what is left is
  \<open>flag.Args()\<close>.
\<close>

function Parse :: "cli \<Rightarrow> string list \<Rightarrow> flag_failure + cli" where
  "Parse c as =
    (case parseOne c as of
       Inl e \<Rightarrow> Inl e
     | Inr (seen, c1, as1) \<Rightarrow> if seen then Parse c1 as1 else Inr (c1\<lparr>args := as1\<rparr>))"
  by pat_completeness auto
termination
  by (relation "measure (\<lambda>(c, as). length as)") (auto dest: parseOne_shorter)

declare Parse.simps [simp del]

subsection \<open>\<open>main\<close>\<close>

text \<open>\<open>bytes.Split(src, []byte{'\n'})\<close>.\<close>

fun split_nl :: "string \<Rightarrow> string list" where
  "split_nl [] = [[]]"
| "split_nl (c # cs) =
    (if c = CHR 0x0A then [] # split_nl cs
     else (case split_nl cs of [] \<Rightarrow> [[c]] | ln # lns \<Rightarrow> (c # ln) # lns))"

text \<open>
  \<open>showSourceLine\<close> only prints, but its two index expressions \<open>lines[pos.Line-1]\<close> and
  \<open>srcLine[:pos.Column-1]\<close> panic out of range.
\<close>

definition showSourceLine_panics :: "string \<Rightarrow> position \<Rightarrow> bool" where
  "showSourceLine_panics s p \<longleftrightarrow>
     (let lines = split_nl s in
      Line p - 1 < 0 \<or> int (length lines) \<le> Line p - 1 \<or>
      (let srcLine = lines ! nat (Line p - 1) in
       Column p - 1 < 0 \<or> int (length srcLine) < Column p - 1))"

text \<open>The loop over the \<open>-f\<close> files, with the buffer.\<close>

fun load_progs :: "world \<Rightarrow> string list \<Rightarrow> string \<Rightarrow> outcome + string" where
  "load_progs w [] buf = Inr buf"
| "load_progs w (progFile # rest) buf =
    (case (if progFile = ''-'' then readStdin w else readFile w progFile) of
       None \<Rightarrow> Inl errorExit
     | Some content \<Rightarrow> load_progs w rest (buf @ content @ [CHR 0x0A]))"

text \<open>The source of the program and the remaining arguments.\<close>

definition load_source :: "world \<Rightarrow> cli \<Rightarrow> outcome + string \<times> string list" where
  "load_source w c =
    (if 0 < length (progFiles c) then
       (case load_progs w (progFiles c) [] of
          Inl e \<Rightarrow> Inl e
        | Inr buf \<Rightarrow> Inr (buf, args c))
     else if length (args c) < 1 then Inl errorExit
     else Inr (hd (args c), tl (args c)))"

text \<open>
  The loop over the \<open>-v\<close> flags: \<open>strings.SplitN(v, "=", 2)\<close> has two parts when \<open>v\<close>
  has an \<open>=\<close>, the text before the first one and the text after it.
\<close>

fun set_vars :: "string list \<Rightarrow> outcome + (string \<times> string) list" where
  "set_vars [] = Inr []"
| "set_vars (v # vs) =
    (if CHR ''='' \<in> set v then
       (case set_vars vs of
          Inl e \<Rightarrow> Inl e
        | Inr ps \<Rightarrow>
            Inr ((takeWhile (\<lambda>x. x \<noteq> CHR ''='') v, tl (dropWhile (\<lambda>x. x \<noteq> CHR ''='') v)) # ps))
     else Inl errorExit)"

text \<open>\<open>main\<close> after \<open>flag.Parse\<close>, with the flags and the arguments it has left.\<close>

definition run :: "world \<Rightarrow> cli \<Rightarrow> outcome" where
  "run w c =
    (case load_source w c of
       Inl e \<Rightarrow> e
     | Inr (s, args1) \<Rightarrow>
         (case ParseProgram w s of
            ParseError p \<Rightarrow> if showSourceLine_panics s p then Panic else errorExit
          | OtherError \<Rightarrow> errorExit
          | ParseOk \<Rightarrow>
              if cpuprofile c \<noteq> [] \<and> \<not> createFile w (cpuprofile c) then errorExit
              else if cpuprofile c \<noteq> [] \<and> \<not> StartCPUProfile w then errorExit
              else
                (case set_vars (vars c) of
                   Inl e \<Rightarrow> e
                 | Inr vs \<Rightarrow>
                     (case Exec w s (fieldSep c) vs args1 of
                        (ok, status) \<Rightarrow>
                          if \<not> ok then errorExit
                          else if memprofile c \<noteq> [] \<and> \<not> createFile w (memprofile c)
                            then errorExit
                          else if memprofile c \<noteq> [] \<and> \<not> WriteHeapProfile w then errorExit
                          else Exit status))))"

text \<open>
  \<open>main\<close>, on the arguments \<open>os.Args[1:]\<close> of the command. The flags are parsed with
  \<open>flag.ExitOnError\<close>: an error of \<open>flag.Parse\<close> ends the process with \<open>os.Exit(2)\<close>.
  At \<open>-h\<close> or \<open>-help\<close> it ends with the status 2 as well in the Go releases before
  1.15 and with 0 since; the status is the field \<open>helpStatus\<close> of the world.
\<close>

definition main :: "world \<Rightarrow> string list \<Rightarrow> outcome" where
  "main w argv =
    (case Parse flag_defaults argv of
       Inl BadFlag \<Rightarrow> Exit 2
     | Inl HelpFlag \<Rightarrow> Exit (helpStatus w)
     | Inr c \<Rightarrow> run w c)"

section \<open>Notions of the statements\<close>

text \<open>\<open>[]byte(s)\<close>, for the sources of the examples.\<close>

definition bytes_of :: "string \<Rightarrow> byte list" where
  "bytes_of s = map of_char s"

function decode_all :: "byte list \<Rightarrow> rune list" where
  "decode_all bs =
    (case DecodeRune bs of
       (r, n) \<Rightarrow> if n = 0 \<or> r = RuneError then [] else r # decode_all (drop n bs))"
  by pat_completeness auto

termination
proof (relation "measure length", goal_cases)
  case 1
  show ?case by simp
next
  case (2 bs r n)
  then have "bs \<noteq> []"
    using DecodeRune_size_0 [of bs] by auto
  with 2 show ?case by simp
qed

declare decode_all.simps [simp del]

definition upcoming :: "lexer \<Rightarrow> rune list" where
  "upcoming l = (if ch l < 0 then [] else ch l # decode_all (drop (offset l) (src l)))"

inductive steps :: "lexer \<Rightarrow> lexer \<Rightarrow> bool" where
  steps_refl: "steps l l"
| steps_next: "steps l l1 \<Longrightarrow> steps l (next_ch l1)"

text \<open>An early return gives the current position, \<open>ILLEGAL\<close> and a message.\<close>

definition early :: "lexer \<Rightarrow> result \<Rightarrow> bool" where
  "early l r \<longleftrightarrow> fst r = pos l \<and> fst (snd r) = ILLEGAL \<and> snd (snd r) \<noteq> Str []"

definition is_blank :: "rune \<Rightarrow> bool" where
  "is_blank c \<longleftrightarrow> c = rune_of CHR '' '' \<or> c = rune_of CHR 0x09 \<or> c = rune_of CHR 0x0D
     \<or> c = rune_of CHR 0x5C"

text \<open>What a part of \<open>scan\<close> that started at position \<open>p\<close> returns.\<close>

definition returns :: "position \<Rightarrow> lexer \<Rightarrow> result \<times> lexer \<Rightarrow> bool" where
  "returns p l out \<longleftrightarrow> steps l (snd out) \<and> (fst (fst out) = p \<or> early (snd out) (fst out))"

definition tok_of :: "result \<times> lexer \<Rightarrow> token" where
  "tok_of out = fst (snd (fst out))"

text \<open>A token that is neither \<open>DIV\<close>, \<open>DIV_ASSIGN\<close> nor \<open>REGEX\<close>.\<close>

definition plain :: "result \<times> lexer \<Rightarrow> bool" where
  "plain out \<longleftrightarrow> tok_of out \<noteq> DIV \<and> tok_of out \<noteq> DIV_ASSIGN \<and> tok_of out \<noteq> REGEX"





text \<open>The lexer at the start of a token: after the blanks and the comment that \<open>Scan\<close> skips.\<close>

definition token_start :: "lexer \<Rightarrow> lexer" where
  "token_start l = snd (skip_blank l)"

text \<open>
  The source text of a string or a regex, between its delimiters, read as a list of
  items: a plain character, or a backslash and the character after it.
\<close>

datatype item = Plain rune | Esc rune

fun source_of :: "item \<Rightarrow> rune list" where
  "source_of (Plain c) = [c]"
| "source_of (Esc x) = [rune_of CHR 0x5C, x]"

definition source_text :: "item list \<Rightarrow> rune list" where
  "source_text items = concat (map source_of items)"

text \<open>
  In a string with the quote \<open>q\<close>, a plain character is any but the quote, the
  backslash, the carriage return and the newline; any character may follow a backslash.
\<close>

fun string_item_ok :: "rune \<Rightarrow> item \<Rightarrow> bool" where
  "string_item_ok q (Plain c) \<longleftrightarrow>
     c \<noteq> q \<and> c \<noteq> rune_of CHR 0x5C \<and> c \<noteq> rune_of CHR 0x0D \<and> c \<noteq> rune_of CHR 0x0A"
| "string_item_ok q (Esc x) \<longleftrightarrow> True"

text \<open>
  The character that an item of a string stands for, in the words of the claim: tab,
  carriage return and newline for \<open>\t\<close>, \<open>\r\<close> and \<open>\n\<close>, and the character itself
  after any other backslash.
\<close>

fun string_char :: "item \<Rightarrow> rune" where
  "string_char (Plain c) = c"
| "string_char (Esc x) =
     (if x = rune_of CHR ''t'' then rune_of CHR 0x09
      else if x = rune_of CHR ''r'' then rune_of CHR 0x0D
      else if x = rune_of CHR ''n'' then rune_of CHR 0x0A
      else x)"

text \<open>Where a literal breaks off: at a carriage return or a newline.\<close>

definition line_end :: "rune list \<Rightarrow> bool" where
  "line_end rs = (case rs of [] \<Rightarrow> False | c # _ \<Rightarrow> c = rune_of CHR 0x0D \<or> c = rune_of CHR 0x0A)"

definition pos_of :: "result \<times> lexer \<Rightarrow> position" where
  "pos_of out = fst (fst out)"


text \<open>
  The states of a lexer in use: \<open>NewLexer\<close> makes it from a source, and \<open>Scan\<close> and
  \<open>ScanRegex\<close> are called on it in any order. The zero value of the type \<open>Token\<close>, the
  first \<open>lastTok\<close>, is the constant that token.go declares first; it is the parameter
  \<open>tok0\<close> here.
\<close>

inductive lexer_state :: "token \<Rightarrow> lexer \<Rightarrow> bool" for tok0 :: token where
  state_New: "lexer_state tok0 (NewLexer tok0 s)"
| state_Scan: "lexer_state tok0 l \<Longrightarrow> lexer_state tok0 (snd (Scan l))"
| state_ScanRegex: "lexer_state tok0 l \<Longrightarrow> lexer_state tok0 (snd (ScanRegex l))"

definition pos_ok :: "position \<Rightarrow> bool" where
  "pos_ok p \<longleftrightarrow> 1 \<le> Line p \<and> 1 \<le> Column p"

text \<open>
  What \<open>next\<close> keeps true of the two positions: both are one-based, and the next
  position is one column after the position of a current character other than newline.
\<close>

definition pos_inv :: "lexer \<Rightarrow> bool" where
  "pos_inv l \<longleftrightarrow>
     pos_ok (pos l) \<and> pos_ok (nextPos l) \<and>
     (0 \<le> ch l \<and> ch l \<noteq> rune_of CHR 0x0A \<longrightarrow>
        nextPos l = (pos l)\<lparr>Column := Column (pos l) + 1\<rparr>)"

text \<open>After \<open>DIV\<close> and \<open>DIV_ASSIGN\<close> the lexer stands one and two columns after the slash.\<close>

definition after_slash :: "lexer \<Rightarrow> bool" where
  "after_slash l \<longleftrightarrow>
     (lastTok l = DIV \<longrightarrow> 2 \<le> Column (pos l)) \<and>
     (lastTok l = DIV_ASSIGN \<longrightarrow> 3 \<le> Column (pos l))"

text \<open>
  In a regex, a plain character is any but the slash, the backslash, the carriage return
  and the newline; any character may follow a backslash.
\<close>

fun regex_item_ok :: "item \<Rightarrow> bool" where
  "regex_item_ok (Plain c) \<longleftrightarrow>
     c \<noteq> rune_of CHR ''/'' \<and> c \<noteq> rune_of CHR 0x5C \<and> c \<noteq> rune_of CHR 0x0D
       \<and> c \<noteq> rune_of CHR 0x0A"
| "regex_item_ok (Esc x) \<longleftrightarrow> True"

text \<open>
  What an item adds to the value of a regex, in the words of the claim: a slash for
  \<open>\/\<close>, and the backslash with the character for any other escape.
\<close>

fun regex_chars :: "item \<Rightarrow> rune list" where
  "regex_chars (Plain c) = [c]"
| "regex_chars (Esc x) =
     (if x = rune_of CHR ''/'' then [rune_of CHR ''/''] else [rune_of CHR 0x5C, x])"

definition regex_text :: "item list \<Rightarrow> rune list" where
  "regex_text items = concat (map regex_chars items)"


text \<open>
  A source with an invalid UTF-8 byte: decoding rune after rune meets an encoding that
  \<open>DecodeRune\<close> rejects (\<open>RuneError\<close> with the width 1). It is the negation of Go's
  \<open>utf8.Valid\<close>.
\<close>

function has_invalid :: "byte list \<Rightarrow> bool" where
  "has_invalid bs =
    (case DecodeRune bs of
       (r, n) \<Rightarrow>
         if n = 0 then False
         else if r = RuneError \<and> n = 1 then True
         else has_invalid (drop n bs))"
  by pat_completeness auto

termination
proof (relation "measure length", goal_cases)
  case 1
  show ?case by simp
next
  case (2 bs r n)
  then have "bs \<noteq> []"
    using DecodeRune_size_0 [of bs] by auto
  with 2 show ?case by simp
qed

declare has_invalid.simps [simp del]

text \<open>
  The use of the lexer that its package comment describes: \<open>Scan\<close> is called until the
  token is \<open>EOF\<close> or \<open>ILLEGAL\<close>. The results of at most \<open>n\<close> calls, if the last of
  them is \<open>EOF\<close> or \<open>ILLEGAL\<close>.
\<close>

fun scan_all :: "nat \<Rightarrow> lexer \<Rightarrow> result list option" where
  "scan_all 0 l = None"
| "scan_all (Suc n) l =
    (case Scan l of
       (r, l1) \<Rightarrow>
         if fst (snd r) = EOF \<or> fst (snd r) = ILLEGAL then Some [r]
         else map_option (Cons r) (scan_all n l1))"

text \<open>The characters at which a token can start.\<close>

definition token_char :: "rune \<Rightarrow> bool" where
  "token_char c \<longleftrightarrow>
     isNameStart c \<or> isDigit c \<or>
     c \<in> set (map rune_of
       ([CHR 0x0A, CHR 0x22, CHR 0x27] @ '':,/{[(-%+}])*=^!<>~?;$&|.''))"

text \<open>What \<open>next\<close> keeps true when it has met a byte that does not decode.\<close>

definition utf8_inv :: "lexer \<Rightarrow> bool" where
  "utf8_inv l \<longleftrightarrow>
     (ch l < 0 \<and> offset l < length (src l) \<longrightarrow>
        errorMsg l = Sprintf ''invalid UTF-8 byte 0x%02x'' [ArgByte (src l ! offset l)])"

text \<open>
  What it keeps true on a source with an invalid byte: the byte is still ahead, or the
  error message is set; and the end of the source is only reached without an error.
\<close>

definition invalid_inv :: "lexer \<Rightarrow> bool" where
  "invalid_inv l \<longleftrightarrow>
     (has_invalid (drop (offset l) (src l)) \<or> errorMsg l \<noteq> Str []) \<and>
     (ch l < 0 \<and> errorMsg l = Str [] \<longrightarrow> drop (offset l) (src l) = [])"

definition no_eof :: "result \<times> lexer \<Rightarrow> bool" where
  "no_eof out \<longleftrightarrow> tok_of out \<noteq> EOF"

text \<open>
  A line continuation, in the words of the claim: a backslash and a newline, with
  possibly a carriage return between the two as \<open>scan\<close> allows.
\<close>

definition line_continuation :: "rune list \<Rightarrow> bool" where
  "line_continuation rs =
    (case rs of
       c # d # r \<Rightarrow>
         c = rune_of CHR 0x5C
           \<and> (d = rune_of CHR 0x0A
                \<or> d = rune_of CHR 0x0D \<and> (case r of [] \<Rightarrow> False | e # _ \<Rightarrow> e = rune_of CHR 0x0A))
     | _ \<Rightarrow> False)"

text \<open>
  A text that starts with a space, a tab, a carriage return or a line continuation: what
  precedes the token, in the words of the claim, when \<open>Scan\<close> is called at this text.
\<close>

definition blank_before :: "rune list \<Rightarrow> bool" where
  "blank_before rs \<longleftrightarrow>
     (case rs of
        [] \<Rightarrow> False
      | c # _ \<Rightarrow> c = rune_of CHR '' '' \<or> c = rune_of CHR 0x09 \<or> c = rune_of CHR 0x0D)
     \<or> line_continuation rs"

text \<open>The earlier lexer at the start of a token.\<close>

definition token_start_v1 :: "lexer \<Rightarrow> lexer" where
  "token_start_v1 l = snd (skip_blank_v1 l)"

text \<open>The five escapes of a string of the earlier lexer.\<close>

definition known_escape :: "rune \<Rightarrow> bool" where
  "known_escape x \<longleftrightarrow>
     x = rune_of CHR 0x22 \<or> x = rune_of CHR 0x5C \<or> x = rune_of CHR ''t''
       \<or> x = rune_of CHR ''r'' \<or> x = rune_of CHR ''n''"


text \<open>
  The states of the earlier lexer in use: \<open>NewLexer\<close> makes it from a source, and \<open>Scan\<close>
  is called on it.
\<close>

inductive lexer_state_v1 ::
  "(rune list \<Rightarrow> bool) \<Rightarrow> (rune list \<Rightarrow> token option) \<Rightarrow> lexer \<Rightarrow> bool"
  for uk :: "rune list \<Rightarrow> bool" and kw :: "rune list \<Rightarrow> token option" where
  state_v1_New: "lexer_state_v1 uk kw (NewLexer_v1 s)"
| state_v1_Scan: "lexer_state_v1 uk kw l \<Longrightarrow> lexer_state_v1 uk kw (snd (Scan_v1 uk kw l))"

text \<open>
  What \<open>next\<close> keeps true of the offset: it stays within the source, and it is past the
  bytes of the current character when there is one.
\<close>

definition offset_inv :: "lexer \<Rightarrow> bool" where
  "offset_inv l \<longleftrightarrow> offset l \<le> length (src l) \<and> (0 \<le> ch l \<longrightarrow> 1 \<le> offset l)"

text \<open>
  The CPU profile, if one is asked for, is created and started; the memory profile, if one
  is asked for, is created and written.
\<close>

definition cpu_ok :: "world \<Rightarrow> cli \<Rightarrow> bool" where
  "cpu_ok w c \<longleftrightarrow> cpuprofile c = [] \<or> createFile w (cpuprofile c) \<and> StartCPUProfile w"

definition mem_ok :: "world \<Rightarrow> cli \<Rightarrow> bool" where
  "mem_ok w c \<longleftrightarrow> memprofile c = [] \<or> createFile w (memprofile c) \<and> WriteHeapProfile w"

text \<open>A world in which every call succeeds, and the program ends with the status 0.\<close>

definition quiet_world :: world where
  "quiet_world =
    \<lparr>helpStatus = 2, readStdin = Some [], readFile = (\<lambda>f. Some []),
     ParseProgram = (\<lambda>s. ParseOk), createFile = (\<lambda>f. True), StartCPUProfile = True,
     WriteHeapProfile = True, Exec = (\<lambda>s fs vs as. (True, 0))\<rparr>"

section \<open>Lemmas\<close>

lemma upcoming_Nil: "upcoming l = [] \<longleftrightarrow> ch l < 0"
  by (simp add: upcoming_def)

lemma next_ch_upcoming: "0 \<le> ch l \<Longrightarrow> upcoming l = ch l # upcoming (next_ch l)"
proof -
  assume c: "0 \<le> ch l"
  obtain r n where d: "DecodeRune (drop (offset l) (src l)) = (r, n)"
    by fastforce
  have r: "0 \<le> r"
    using DecodeRune_nonneg [of "drop (offset l) (src l)"] d by simp
  have "decode_all (drop (offset l) (src l)) =
      (if n = 0 \<or> r = RuneError then []
       else r # decode_all (drop n (drop (offset l) (src l))))"
    using d by (subst decode_all.simps) simp
  then show ?thesis
    using c d r
    by (auto simp: upcoming_def next_ch_def Let_def add.commute)
qed

lemma upcoming_Cons:
  assumes "upcoming l = c # cs"
  shows "ch l = c" and "0 \<le> c" and "upcoming (next_ch l) = cs"
proof -
  from assms have nn: "0 \<le> ch l"
    by (auto simp: upcoming_def split: if_splits)
  from assms show "ch l = c"
    by (auto simp: upcoming_def split: if_splits)
  with nn show "0 \<le> c" by simp
  from next_ch_upcoming [OF nn] assms show "upcoming (next_ch l) = cs" by simp
qed

lemma upcoming_hadSpace [simp]: "upcoming (l\<lparr>hadSpace := b\<rparr>) = upcoming l"
  by (simp add: upcoming_def)

lemma upcoming_lastTok [simp]: "upcoming (l\<lparr>lastTok := t\<rparr>) = upcoming l"
  by (simp add: upcoming_def)

lemma next_ch_pos [simp]: "pos (next_ch l) = nextPos l"
  by (simp add: next_ch_def Let_def split: prod.splits)

lemma next_ch_lastTok [simp]: "lastTok (next_ch l) = lastTok l"
  by (simp add: next_ch_def Let_def split: prod.splits)

lemma next_ch_hadSpace [simp]: "hadSpace (next_ch l) = hadSpace l"
  by (simp add: next_ch_def Let_def split: prod.splits)

lemma next_ch_src [simp]: "src (next_ch l) = src l"
  by (simp add: next_ch_def Let_def split: prod.splits)

lemma steps_trans: "steps l1 l2 \<Longrightarrow> steps l l1 \<Longrightarrow> steps l l2"
  by (induction rule: steps.induct) (auto intro: steps.intros)

lemma steps_from_next: "steps (next_ch l) l1 \<Longrightarrow> steps l l1"
  by (erule steps_trans) (intro steps.intros)

lemma steps_from_next2: "steps (next_ch (next_ch l)) l1 \<Longrightarrow> steps l l1"
  by (rule steps_from_next, rule steps_from_next)

lemma steps_remaining: "steps l l1 \<Longrightarrow> remaining l1 \<le> remaining l"
proof (induction rule: steps.induct)
  case (steps_next l l1)
  then show ?case using remaining_next_le [of l1] by simp
qed simp_all

lemma remaining_next2: "0 \<le> ch l \<Longrightarrow> remaining (next_ch (next_ch l)) < remaining l"
  using remaining_next_less [of l] remaining_next_le [of "next_ch l"] by simp

lemma remaining_next3:
  "0 \<le> ch l \<Longrightarrow> remaining (next_ch (next_ch (next_ch l))) < remaining l"
  using remaining_next2 [of l] remaining_next_le [of "next_ch (next_ch l)"] by simp

lemma steps_fields:
  "steps l l1 \<Longrightarrow> hadSpace l1 = hadSpace l \<and> lastTok l1 = lastTok l \<and> src l1 = src l"
  by (induction rule: steps.induct) simp_all

lemma next_ch_hadSpace_update [simp]:
  "next_ch (l\<lparr>hadSpace := b\<rparr>) = (next_ch l)\<lparr>hadSpace := b\<rparr>"
  by (simp add: next_ch_def Let_def split: prod.splits)

lemma next_ch_lastTok_update [simp]:
  "next_ch (l\<lparr>lastTok := t\<rparr>) = (next_ch l)\<lparr>lastTok := t\<rparr>"
  by (simp add: next_ch_def Let_def split: prod.splits)

lemma steps_hadSpace_update:
  "steps l0 l1 \<Longrightarrow> l0 = l\<lparr>hadSpace := b\<rparr> \<Longrightarrow> \<exists>l2. steps l l2 \<and> l1 = l2\<lparr>hadSpace := b\<rparr>"
proof (induction rule: steps.induct)
  case (steps_refl l0)
  then show ?case by (auto intro: steps.intros)
next
  case (steps_next l0 l1)
  then obtain l2 where "steps l l2" "l1 = l2\<lparr>hadSpace := b\<rparr>" by auto
  then have "steps l (next_ch l2) \<and> next_ch l1 = (next_ch l2)\<lparr>hadSpace := b\<rparr>"
    by (simp add: steps.steps_next)
  then show ?case by blast
qed

lemma skip_space_steps:
  "(\<exists>l1. steps l l1 \<and> snd (skip_space l) = l1\<lparr>hadSpace := hadSpace l \<or> is_blank (ch l)\<rparr>)
   \<and> (\<forall>r. fst (skip_space l) = Some r \<longrightarrow> early (snd (skip_space l)) r)"
proof (induction l rule: skip_space.induct)
  case (1 l)
  define l2 where "l2 = next_ch l"
  define l3 where "l3 = (if ch l2 = rune_of CHR 0x0D then next_ch l2 else l2)"
  have s3: "steps l l3"
    by (auto simp: l3_def l2_def intro: steps.intros)
  show ?case
  proof (cases "is_blank (ch l)")
    case False
    then show ?thesis
      by (subst (1 2 3) skip_space.simps) (auto simp: is_blank_def intro: steps.intros)
  next
    case blank: True
    show ?thesis
    proof (cases "ch l = rune_of CHR 0x5C")
      case False
      with blank have eq: "skip_space l = skip_space (l2\<lparr>hadSpace := True\<rparr>)"
        by (subst skip_space.simps) (auto simp: is_blank_def l2_def)
      have IH: "(\<exists>l1. steps (l2\<lparr>hadSpace := True\<rparr>) l1 \<and>
            snd (skip_space (l2\<lparr>hadSpace := True\<rparr>)) = l1\<lparr>hadSpace := True\<rparr>)
          \<and> (\<forall>r. fst (skip_space (l2\<lparr>hadSpace := True\<rparr>)) = Some r \<longrightarrow>
                 early (snd (skip_space (l2\<lparr>hadSpace := True\<rparr>))) r)"
        using "1.IH"(2) [OF _ refl] blank False by (simp add: is_blank_def l2_def)
      then obtain l1 where l1: "steps (l2\<lparr>hadSpace := True\<rparr>) l1"
          "snd (skip_space (l2\<lparr>hadSpace := True\<rparr>)) = l1\<lparr>hadSpace := True\<rparr>"
        by blast
      from steps_hadSpace_update [OF l1(1) refl] obtain l4 where
        l4: "steps l2 l4" "l1 = l4\<lparr>hadSpace := True\<rparr>" by blast
      have "steps l l4"
        using l4(1) by (auto simp: l2_def intro: steps_from_next)
      with l1 l4 IH blank show ?thesis
        unfolding eq by auto
    next
      case bs: True
      show ?thesis
      proof (cases "ch l3 = rune_of CHR 0x0A")
        case False
        with bs have eq: "skip_space l =
            (Some (pos l3, ILLEGAL,
               lit (''expected '' @ [CHR 0x5C] @ ''n after '' @ [CHR 0x5C]
                      @ '' line continuation'')), l3\<lparr>hadSpace := True\<rparr>)"
          by (subst skip_space.simps) (auto simp: l3_def l2_def Let_def)
        show ?thesis
          unfolding eq using s3 blank by (auto simp: early_def lit_def)
      next
        case nl: True
        define l5 where "l5 = next_ch l3"
        with bs nl have eq: "skip_space l = skip_space (l5\<lparr>hadSpace := True\<rparr>)"
          by (subst skip_space.simps) (auto simp: l3_def l2_def Let_def)
        have IH: "(\<exists>l1. steps (l5\<lparr>hadSpace := True\<rparr>) l1 \<and>
              snd (skip_space (l5\<lparr>hadSpace := True\<rparr>)) = l1\<lparr>hadSpace := True\<rparr>)
            \<and> (\<forall>r. fst (skip_space (l5\<lparr>hadSpace := True\<rparr>)) = Some r \<longrightarrow>
                   early (snd (skip_space (l5\<lparr>hadSpace := True\<rparr>))) r)"
          using "1.IH"(1) [OF _ refl _ refl refl] blank bs nl
          by (auto simp: is_blank_def l2_def l3_def l5_def)
        then obtain l1 where l1: "steps (l5\<lparr>hadSpace := True\<rparr>) l1"
            "snd (skip_space (l5\<lparr>hadSpace := True\<rparr>)) = l1\<lparr>hadSpace := True\<rparr>"
          by blast
        from steps_hadSpace_update [OF l1(1) refl] obtain l4 where
          l4: "steps l5 l4" "l1 = l4\<lparr>hadSpace := True\<rparr>" by blast
        have "steps l l4"
          using l4(1) s3 steps_trans [OF _ s3] by (auto simp: l5_def dest: steps_from_next)
        with l1 l4 IH blank show ?thesis
          unfolding eq by auto
      qed
    qed
  qed
qed

lemma skip_comment_steps: "steps l (skip_comment l)"
proof (induction l rule: skip_comment.induct)
  case (1 l)
  then show ?case
    by (subst skip_comment.simps) (auto intro: steps_from_next steps_refl)
qed

lemma name_loop_steps: "steps l (snd (name_loop l runes))"
proof (induction l runes rule: name_loop.induct)
  case (1 l runes)
  then show ?case
    by (subst name_loop.simps) (auto intro: steps_from_next steps_refl)
qed

lemma digits_loop_steps: "steps l (snd (digits_loop l runes))"
proof (induction l runes rule: digits_loop.induct)
  case (1 l runes)
  then show ?case
    by (subst digits_loop.simps) (auto intro: steps_from_next steps_refl)
qed

lemma fraction_loop_steps: "steps l (snd (snd (fraction_loop l runes g)))"
proof (induction l runes g rule: fraction_loop.induct)
  case (1 l runes g)
  then show ?case
    by (subst fraction_loop.simps) (auto intro: steps_from_next steps_refl)
qed

lemma lift_steps: "steps l l0 \<Longrightarrow> steps l0 l1 \<and> Q \<Longrightarrow> steps l l1 \<and> Q"
  by (auto intro: steps_trans)

lemma steps_next2: "steps l (next_ch (next_ch l))"
  by (intro steps.intros)

lemma string_loop_steps:
  "steps l (snd (string_loop q l runes)) \<and>
   (\<forall>r. fst (string_loop q l runes) = Inl r \<longrightarrow> early (snd (string_loop q l runes)) r)"
proof (induction q l runes rule: string_loop.induct)
  case (1 q l runes)
  show ?case
  proof (cases "ch l \<noteq> q \<and> 0 \<le> ch l \<and> ch l \<noteq> rune_of CHR 0x0D \<and> ch l \<noteq> rune_of CHR 0x0A")
    case False
    then show ?thesis
      by (subst (1 2 3) string_loop.simps) (auto simp: early_def lit_def intro: steps_refl)
  next
    case go: True
    show ?thesis
    proof (cases "ch l = rune_of CHR 0x5C")
      case True
      define c1 where "c1 = (if ch (next_ch l) = rune_of CHR ''t'' then rune_of CHR 0x09
                     else if ch (next_ch l) = rune_of CHR ''r'' then rune_of CHR 0x0D
                     else if ch (next_ch l) = rune_of CHR ''n'' then rune_of CHR 0x0A
                     else ch (next_ch l))"
      have eq: "string_loop q l runes = string_loop q (next_ch (next_ch l)) (runes @ [c1])"
        using go True by (subst string_loop.simps) (simp add: Let_def c1_def)
      have IH: "steps (next_ch (next_ch l))
           (snd (string_loop q (next_ch (next_ch l)) (runes @ [c1]))) \<and>
         (\<forall>r. fst (string_loop q (next_ch (next_ch l)) (runes @ [c1])) = Inl r \<longrightarrow>
              early (snd (string_loop q (next_ch (next_ch l)) (runes @ [c1]))) r)"
        using "1.IH"(1) [OF _ refl _ _ _ refl refl] go True by (simp add: c1_def)
      show ?thesis
        unfolding eq by (rule lift_steps [OF steps_next2 IH])
    next
      case False
      have eq: "string_loop q l runes = string_loop q (next_ch l) (runes @ [ch l])"
        using go False by (subst string_loop.simps) (simp add: Let_def)
      have IH: "steps (next_ch l) (snd (string_loop q (next_ch l) (runes @ [ch l]))) \<and>
         (\<forall>r. fst (string_loop q (next_ch l) (runes @ [ch l])) = Inl r \<longrightarrow>
              early (snd (string_loop q (next_ch l) (runes @ [ch l]))) r)"
        using "1.IH"(2) [OF _ refl] go False by simp
      show ?thesis
        unfolding eq by (rule lift_steps [OF _ IH]) (intro steps.intros)
    qed
  qed
qed

lemma regex_loop_steps:
  "steps l (snd (regex_loop l runes)) \<and>
   (\<forall>r. fst (regex_loop l runes) = Inl r \<longrightarrow> early (snd (regex_loop l runes)) r)"
proof (induction l runes rule: regex_loop.induct)
  case (1 l runes)
  show ?case
  proof (cases "ch l \<noteq> rune_of CHR ''/'' \<and> 0 \<le> ch l \<and> ch l \<noteq> rune_of CHR 0x0D
                  \<and> ch l \<noteq> rune_of CHR 0x0A")
    case False
    then show ?thesis
      by (subst (1 2 3) regex_loop.simps) (auto simp: early_def lit_def intro: steps_refl)
  next
    case go: True
    show ?thesis
    proof (cases "ch l = rune_of CHR 0x5C")
      case True
      define runes1 where "runes1 =
        (if ch (next_ch l) \<noteq> rune_of CHR ''/'' then runes @ [rune_of CHR 0x5C] else runes)
          @ [ch (next_ch l)]"
      have eq: "regex_loop l runes = regex_loop (next_ch (next_ch l)) runes1"
        using go True by (subst regex_loop.simps) (simp add: Let_def runes1_def)
      have IH: "steps (next_ch (next_ch l)) (snd (regex_loop (next_ch (next_ch l)) runes1)) \<and>
         (\<forall>r. fst (regex_loop (next_ch (next_ch l)) runes1) = Inl r \<longrightarrow>
              early (snd (regex_loop (next_ch (next_ch l)) runes1)) r)"
        using "1.IH"(1) [OF _ refl _ _ _ refl refl] go True by (simp add: runes1_def)
      show ?thesis
        unfolding eq by (rule lift_steps [OF steps_next2 IH])
    next
      case False
      have eq: "regex_loop l runes = regex_loop (next_ch l) (runes @ [ch l])"
        using go False by (subst regex_loop.simps) (simp add: Let_def)
      have IH: "steps (next_ch l) (snd (regex_loop (next_ch l) (runes @ [ch l]))) \<and>
         (\<forall>r. fst (regex_loop (next_ch l) (runes @ [ch l])) = Inl r \<longrightarrow>
              early (snd (regex_loop (next_ch l) (runes @ [ch l]))) r)"
        using "1.IH"(2) [OF _ refl] go False by simp
      show ?thesis
        unfolding eq by (rule lift_steps [OF _ IH]) (intro steps.intros)
    qed
  qed
qed

lemma choice_steps: "steps l (snd (choice l c one two))"
  by (simp add: choice_def steps.intros)

lemma choice_tok: "fst (choice l c one two) = one \<or> fst (choice l c one two) = two"
  by (simp add: choice_def)

lemma returns_emit: "steps l l1 \<Longrightarrow> returns p l (emit p tok l1)"
  by (simp add: returns_def emit_def)

lemma number_int_steps: "steps l (snd (snd (number_int c l)))"
  using digits_loop_steps [of l "[c]"]
  by (auto simp: number_int_def split: prod.splits intro: steps.intros)

lemma number_exp_steps: "steps l (snd (number_exp l runes))"
proof -
  have "steps l l0 \<Longrightarrow> steps l (snd (digits_loop l0 rs))" for l0 rs
    using digits_loop_steps [of l0 rs] by (rule steps_trans)
  then show ?thesis
    by (simp add: number_exp_def Let_def steps.intros)
qed

lemma scan_number_returns: "returns p l (scan_number p c l)"
proof -
  obtain runes1 g1 l1 where a: "number_int c l = (runes1, g1, l1)"
    by (cases "number_int c l") auto
  obtain runes2 g2 l2 where b: "fraction_loop l1 runes1 g1 = (runes2, g2, l2)"
    by (cases "fraction_loop l1 runes1 g1") auto
  obtain runes3 l3 where c: "number_exp l2 runes2 = (runes3, l3)"
    by fastforce
  have "steps l l1"
    using number_int_steps [of l c] a by simp
  moreover have "steps l1 l2"
    using fraction_loop_steps [of l1 runes1 g1] b by simp
  ultimately have s2: "steps l l2"
    by (rule steps_trans [rotated])
  moreover have "steps l2 l3"
    using number_exp_steps [of l2 runes2] c by simp
  ultimately have s3: "steps l l3"
    by (rule steps_trans [rotated])
  show ?thesis
    using a b c s2 s3 by (simp add: scan_number_def returns_def early_def lit_def)
qed

lemma scan_number_tok:
  "fst (snd (fst (scan_number p c l))) = NUMBER \<or> fst (snd (fst (scan_number p c l))) = ILLEGAL"
  by (simp add: scan_number_def split: prod.splits)

lemma scan_string_returns: "returns p l (scan_string p c l)"
  using string_loop_steps [of l c "[]"]
  by (auto simp: scan_string_def returns_def split: prod.splits sum.splits intro: steps.intros)

lemma scan_string_tok:
  "fst (snd (fst (scan_string p c l))) = STRING \<or> fst (snd (fst (scan_string p c l))) = ILLEGAL"
  using string_loop_steps [of l c "[]"]
  by (auto simp: scan_string_def early_def split: prod.splits sum.splits)

lemma returns_if:
  "returns p l a \<Longrightarrow> returns p l b \<Longrightarrow> returns p l (if c then a else b)"
  by simp

lemma returns_choice: "returns p l (case choice l c one two of (tok, l1) \<Rightarrow> emit p tok l1)"
  by (simp add: choice_def returns_emit steps.intros)

lemma returns_choice_next:
  "returns p l (case choice (next_ch l) c one two of (tok, l1) \<Rightarrow> emit p tok l1)"
  by (simp add: choice_def returns_emit steps.intros)

lemma returns_illegal: "returns p l ((p, ILLEGAL, v), l)"
  by (simp add: returns_def steps.intros)

lemma returns_amp:
  "returns p l (case choice l c ILLEGAL AND of
          (tok, l1) \<Rightarrow>
            if tok = ILLEGAL then ((pos l1, ILLEGAL, Sprintf f [ArgRune (ch l1)]), l1)
            else emit p tok l1)"
  by (simp add: choice_def emit_def returns_def early_def steps.intros)

lemma returns_emit0: "returns p l (emit p tok l)"
  by (simp add: returns_emit steps.intros)

lemma returns_emit1: "returns p l (emit p tok (next_ch l))"
  by (simp add: returns_emit steps.intros)

lemma scan_switch_returns: "returns p l (scan_switch p c l)"
  unfolding scan_switch_def
  by (intro returns_if returns_choice returns_choice_next returns_illegal returns_amp
        returns_emit0 returns_emit1 scan_number_returns scan_string_returns)

lemma plain_if: "(c \<Longrightarrow> plain a) \<Longrightarrow> (\<not> c \<Longrightarrow> plain b) \<Longrightarrow> plain (if c then a else b)"
  by simp

lemma plain_emit:
  "tok \<noteq> DIV \<Longrightarrow> tok \<noteq> DIV_ASSIGN \<Longrightarrow> tok \<noteq> REGEX \<Longrightarrow> plain (emit p tok l)"
  by (simp add: plain_def tok_of_def emit_def)

lemma plain_choice:
  "plain (emit p one l) \<Longrightarrow> plain (emit p two l) \<Longrightarrow>
   plain (case choice l0 c one two of (tok, l1) \<Rightarrow> emit p tok l1)"
  by (simp add: plain_def tok_of_def emit_def choice_def)

lemma plain_amp:
  "plain (case choice l c ILLEGAL AND of
          (tok, l1) \<Rightarrow>
            if tok = ILLEGAL then ((pos l1, ILLEGAL, Sprintf f [ArgRune (ch l1)]), l1)
            else emit p tok l1)"
  by (simp add: choice_def emit_def plain_def tok_of_def)

lemma plain_illegal: "plain ((p, ILLEGAL, v), l)"
  by (simp add: plain_def tok_of_def)

lemma plain_number: "plain (scan_number p c l)"
  using scan_number_tok [of p c l] by (auto simp: plain_def tok_of_def)

lemma plain_string: "plain (scan_string p c l)"
  using scan_string_tok [of p c l] by (auto simp: plain_def tok_of_def)

lemma scan_switch_plain: "c \<noteq> rune_of CHR ''/'' \<Longrightarrow> plain (scan_switch p c l)"
  unfolding scan_switch_def
  apply (intro plain_if plain_amp plain_illegal plain_number plain_string)
  apply (simp_all add: plain_choice plain_emit)
  done

lemma scan_switch_slash:
  "c = rune_of CHR ''/'' \<Longrightarrow> scan_switch p c l =
     (if ch l = rune_of CHR ''='' then ((p, DIV_ASSIGN, Str []), next_ch l)
      else ((p, DIV, Str []), l))"
  by (simp add: scan_switch_def choice_def emit_def)

lemma keywordTokens_KEYWORD: "keywordTokens name = Some tok \<Longrightarrow> \<exists>k. tok = KEYWORD k"
  by (auto simp: keywordTokens_def dest!: map_of_SomeD)

lemma skip_blank_steps:
  "\<exists>l1. steps l l1 \<and> snd (skip_blank l) = l1\<lparr>hadSpace := is_blank (ch l)\<rparr> \<and>
     (\<forall>r. fst (skip_blank l) = Some r \<longrightarrow> early l1 r)"
proof -
  define X where "X = l\<lparr>hadSpace := False\<rparr>"
  obtain r Y where sp: "skip_space X = (r, Y)" by fastforce
  from skip_space_steps [of X] sp obtain l1 where
    l1: "steps X l1" "Y = l1\<lparr>hadSpace := is_blank (ch l)\<rparr>"
    and e: "\<forall>r'. r = Some r' \<longrightarrow> early Y r'"
    by (auto simp: X_def)
  from steps_hadSpace_update [OF l1(1) X_def] obtain l2 where
    l2: "steps l l2" "l1 = l2\<lparr>hadSpace := False\<rparr>" by blast
  have Y: "Y = l2\<lparr>hadSpace := is_blank (ch l)\<rparr>"
    using l1(2) l2(2) by simp
  show ?thesis
  proof (cases r)
    case (Some r')
    then have "skip_blank l = (Some r', Y)"
      using sp by (simp add: skip_blank_def X_def)
    moreover have "early l2 r'"
      using e Some Y by (simp add: early_def)
    ultimately show ?thesis
      using l2(1) Y by auto
  next
    case None
    define Z where "Z = (if ch Y = rune_of CHR ''#'' then skip_comment (next_ch Y) else Y)"
    have eq: "skip_blank l = (None, Z)"
      using sp None by (simp add: skip_blank_def X_def Z_def)
    have "steps Y Z"
      using skip_comment_steps [of "next_ch Y"]
      by (auto simp: Z_def intro: steps_from_next steps.intros)
    from steps_hadSpace_update [OF this Y] obtain l3 where
      l3: "steps l2 l3" "Z = l3\<lparr>hadSpace := is_blank (ch l)\<rparr>" by blast
    have "steps l l3"
      using l3(1) l2(1) by (rule steps_trans)
    with l3(2) eq show ?thesis by auto
  qed
qed

lemma scan_token_end:
  "ch l < 0 \<Longrightarrow>
   scan_token l = ((pos l, if errorMsg l \<noteq> Str [] then ILLEGAL else EOF, errorMsg l), l)"
  by (simp add: scan_token_def)

lemma scan_token_returns: "0 \<le> ch l \<Longrightarrow> returns (pos l) (next_ch l) (scan_token l)"
proof -
  assume c: "0 \<le> ch l"
  show ?thesis
  proof (cases "isNameStart (ch l)")
    case True
    obtain name l2 where n: "name_loop (next_ch l) [ch l] = (name, l2)" by fastforce
    then have "steps (next_ch l) l2"
      using name_loop_steps [of "next_ch l" "[ch l]"] by simp
    with c True n show ?thesis
      by (simp add: scan_token_def Let_def returns_def split: option.splits)
  next
    case False
    with c show ?thesis
      by (simp add: scan_token_def Let_def scan_switch_returns)
  qed
qed

lemma scan_token_plain:
  "ch l \<noteq> rune_of CHR ''/'' \<Longrightarrow> plain (scan_token l)"
proof (cases "ch l < 0")
  case True
  then show ?thesis
    by (simp add: scan_token_end plain_def tok_of_def)
next
  case nonneg: False
  assume ns: "ch l \<noteq> rune_of CHR ''/''"
  show ?thesis
  proof (cases "isNameStart (ch l)")
    case True
    obtain name l2 where n: "name_loop (next_ch l) [ch l] = (name, l2)" by fastforce
    with nonneg True show ?thesis
      by (auto simp: scan_token_def Let_def plain_def tok_of_def
               split: option.splits dest: keywordTokens_KEYWORD)
  next
    case False
    with nonneg ns show ?thesis
      by (simp add: scan_token_def Let_def scan_switch_plain)
  qed
qed

lemma scan_token_slash:
  "ch l = rune_of CHR ''/'' \<Longrightarrow>
   scan_token l =
     (if ch (next_ch l) = rune_of CHR ''='' then ((pos l, DIV_ASSIGN, Str []), next_ch (next_ch l))
      else ((pos l, DIV, Str []), next_ch l))"
  by (simp add: scan_token_def Let_def isNameStart_def scan_switch_slash)

lemma scan_None: "skip_blank l = (None, l1) \<Longrightarrow> scan l = scan_token l1"
  by (simp add: scan_def)

lemma scan_Some: "skip_blank l = (Some r, l1) \<Longrightarrow> scan l = (r, l1)"
  by (simp add: scan_def)

lemma Scan_fst: "fst (Scan l) = fst (scan l)"
  by (simp add: Scan_def split: prod.splits)

lemma Scan_snd: "snd (Scan l) = (snd (scan l))\<lparr>lastTok := tok_of (scan l)\<rparr>"
  by (simp add: Scan_def tok_of_def split: prod.splits)

lemma tok_of_Scan: "tok_of (Scan l) = tok_of (scan l)"
  by (simp add: tok_of_def Scan_fst)

lemma scan_not_REGEX: "tok_of (scan l) \<noteq> REGEX"
proof -
  obtain r l1 where sb: "skip_blank l = (r, l1)" by fastforce
  show ?thesis
  proof (cases r)
    case (Some r')
    with skip_blank_steps [of l] sb show ?thesis
      by (auto simp: scan_Some tok_of_def early_def)
  next
    case None
    with sb have eq: "scan l = scan_token l1" by (simp add: scan_None)
    show ?thesis
    proof (cases "ch l1 = rune_of CHR ''/''")
      case True
      then show ?thesis
        unfolding eq by (simp add: scan_token_slash tok_of_def)
    next
      case False
      then show ?thesis
        unfolding eq using scan_token_plain [of l1] by (simp add: plain_def)
    qed
  qed
qed

lemma scan_token_steps: "steps l (snd (scan_token l))"
proof (cases "ch l < 0")
  case True
  then show ?thesis by (simp add: scan_token_end steps.intros)
next
  case False
  then have "steps (next_ch l) (snd (scan_token l))"
    using scan_token_returns [of l] by (simp add: returns_def)
  then show ?thesis by (rule steps_from_next)
qed

lemma scan_hadSpace: "hadSpace (snd (scan l)) = is_blank (ch l)"
proof -
  from skip_blank_steps [of l] obtain l1 where
    l1: "snd (skip_blank l) = l1\<lparr>hadSpace := is_blank (ch l)\<rparr>" by blast
  obtain r Y where sb: "skip_blank l = (r, Y)" by fastforce
  show ?thesis
  proof (cases r)
    case (Some r')
    with sb l1 show ?thesis by (simp add: scan_Some)
  next
    case None
    with sb have "scan l = scan_token Y" by (simp add: scan_None)
    moreover have "hadSpace (snd (scan_token Y)) = hadSpace Y"
      using steps_fields [OF scan_token_steps [of Y]] by simp
    ultimately show ?thesis using sb l1 by simp
  qed
qed










lemma point_not_digit: "\<not> isDigit (rune_of CHR ''.'')"
  by (simp add: isDigit_def)








lemma source_text_simps [simp]:
  "source_text [] = []"
  "source_text (Plain c # items) = c # source_text items"
  "source_text (Esc x # items) = rune_of CHR 0x5C # x # source_text items"
  by (simp_all add: source_text_def)

lemma next_ch_end: "ch (next_ch l) < 0 \<Longrightarrow> ch (next_ch (next_ch l)) < 0"
proof -
  assume a: "ch (next_ch l) < 0"
  obtain r n where d: "DecodeRune (drop (offset l) (src l)) = (r, n)" by fastforce
  have "0 \<le> r"
    using DecodeRune_nonneg [of "drop (offset l) (src l)"] d by simp
  with a d have "n = 0 \<or> r = RuneError"
    by (auto simp: next_ch_def Let_def split: if_splits)
  with d show ?thesis
    by (auto simp: next_ch_def Let_def)
qed

lemma upcoming_single:
  assumes "upcoming l = [c]"
  shows "ch l = c" and "ch (next_ch l) < 0" and "ch (next_ch (next_ch l)) < 0"
proof -
  show "ch l = c" using assms by (rule upcoming_Cons(1))
  have "upcoming (next_ch l) = []" using assms by (rule upcoming_Cons(3))
  then show "ch (next_ch l) < 0" by (simp add: upcoming_Nil)
  then show "ch (next_ch (next_ch l)) < 0" by (rule next_ch_end)
qed

lemma string_loop_stop: "ch l = q \<Longrightarrow> string_loop q l runes = (Inr runes, l)"
  by (subst string_loop.simps) simp

lemma string_loop_plain:
  "ch l \<noteq> q \<Longrightarrow> 0 \<le> ch l \<Longrightarrow> ch l \<noteq> rune_of CHR 0x0D \<Longrightarrow> ch l \<noteq> rune_of CHR 0x0A \<Longrightarrow>
   ch l \<noteq> rune_of CHR 0x5C \<Longrightarrow>
   string_loop q l runes = string_loop q (next_ch l) (runes @ [ch l])"
  by (subst string_loop.simps) (simp add: Let_def)

lemma string_loop_esc:
  "ch l = rune_of CHR 0x5C \<Longrightarrow> q \<noteq> rune_of CHR 0x5C \<Longrightarrow>
   string_loop q l runes =
     string_loop q (next_ch (next_ch l)) (runes @ [string_char (Esc (ch (next_ch l)))])"
  by (subst string_loop.simps) (simp add: Let_def)

lemma string_loop_eof:
  "ch l < 0 \<Longrightarrow> 0 \<le> q \<Longrightarrow>
   string_loop q l runes = (Inl (pos l, ILLEGAL, lit ''didn't find end quote in string''), l)"
  by (subst string_loop.simps) (simp add: Let_def)

lemma string_loop_newline:
  "ch l = rune_of CHR 0x0D \<or> ch l = rune_of CHR 0x0A \<Longrightarrow> ch l \<noteq> q \<Longrightarrow>
   string_loop q l runes = (Inl (pos l, ILLEGAL, lit ''can't have newline in string''), l)"
  by (subst string_loop.simps) (auto simp: Let_def)

text \<open>
  The loop over the items of a literal: it reaches what follows them with their
  characters added to the runes.
\<close>

lemma string_loop_items:
  assumes "list_all (string_item_ok q) items" and "q \<noteq> rune_of CHR 0x5C"
    and "upcoming l = source_text items @ rest"
  shows "\<exists>l1. string_loop q l runes = string_loop q l1 (runes @ map string_char items)
           \<and> upcoming l1 = rest \<and> steps l l1"
  using assms(1,3)
proof (induction items arbitrary: l runes)
  case Nil
  then show ?case by (auto intro: steps.intros)
next
  case (Cons i items)
  show ?case
  proof (cases i)
    case (Plain c)
    with Cons.prems have u: "upcoming l = c # source_text items @ rest" by simp
    from upcoming_Cons [OF u] have c: "ch l = c" "0 \<le> c"
      and u1: "upcoming (next_ch l) = source_text items @ rest" by auto
    from Cons.prems(1) Plain c have eq:
      "string_loop q l runes = string_loop q (next_ch l) (runes @ [c])"
      by (simp add: string_loop_plain)
    from Cons.IH [OF _ u1, of "runes @ [c]"] Cons.prems(1) obtain l1 where
      "string_loop q (next_ch l) (runes @ [c]) =
         string_loop q l1 ((runes @ [c]) @ map string_char items)"
      "upcoming l1 = rest" "steps (next_ch l) l1"
      by auto
    with eq Plain show ?thesis
      by (intro exI [of _ l1]) (auto intro: steps_from_next)
  next
    case (Esc x)
    with Cons.prems have u: "upcoming l = rune_of CHR 0x5C # x # source_text items @ rest"
      by simp
    from upcoming_Cons [OF u] have c: "ch l = rune_of CHR 0x5C"
      and u1: "upcoming (next_ch l) = x # source_text items @ rest" by auto
    from upcoming_Cons [OF u1] have x: "ch (next_ch l) = x"
      and u2: "upcoming (next_ch (next_ch l)) = source_text items @ rest" by auto
    from c x assms(2) have eq:
      "string_loop q l runes =
         string_loop q (next_ch (next_ch l)) (runes @ [string_char (Esc x)])"
      by (simp add: string_loop_esc)
    from Cons.IH [OF _ u2, of "runes @ [string_char (Esc x)]"] Cons.prems(1) obtain l1 where
      "string_loop q (next_ch (next_ch l)) (runes @ [string_char (Esc x)]) =
         string_loop q l1 ((runes @ [string_char (Esc x)]) @ map string_char items)"
      "upcoming l1 = rest" "steps (next_ch (next_ch l)) l1"
      by auto
    with eq Esc show ?thesis
      by (intro exI [of _ l1]) (auto intro: steps_from_next2)
  qed
qed

lemma scan_string_closed:
  assumes "list_all (string_item_ok q) items" and "q \<noteq> rune_of CHR 0x5C"
    and "upcoming l = source_text items @ q # rest"
  shows "fst (scan_string p q l) = (p, STRING, Str (map string_char items))"
    and "upcoming (snd (scan_string p q l)) = rest"
proof -
  from string_loop_items [OF assms, of "[]"] obtain l1 where
    l1: "string_loop q l [] = string_loop q l1 (map string_char items)"
      "upcoming l1 = q # rest"
    by auto
  from upcoming_Cons [OF l1(2)] have "ch l1 = q" "upcoming (next_ch l1) = rest"
    by auto
  with l1(1) show "fst (scan_string p q l) = (p, STRING, Str (map string_char items))"
    and "upcoming (snd (scan_string p q l)) = rest"
    by (simp_all add: scan_string_def string_loop_stop)
qed

lemma scan_string_open:
  assumes "list_all (string_item_ok q) items" and "q \<noteq> rune_of CHR 0x5C"
    and "0 \<le> q" and "q \<noteq> rune_of CHR 0x0D" and "q \<noteq> rune_of CHR 0x0A"
    and "upcoming l = source_text items @ stop"
  shows "stop = [] \<or> stop = [rune_of CHR 0x5C] \<Longrightarrow>
           scan_string p q l =
             ((pos (snd (scan_string p q l)), ILLEGAL, lit ''didn't find end quote in string''),
              snd (scan_string p q l))"
    and "line_end stop \<Longrightarrow>
           scan_string p q l =
             ((pos (snd (scan_string p q l)), ILLEGAL, lit ''can't have newline in string''),
              snd (scan_string p q l))"
proof -
  from string_loop_items [OF assms(1,2,6), of "[]"] obtain l1 where
    l1: "string_loop q l [] = string_loop q l1 (map string_char items)"
      "upcoming l1 = stop"
    by auto
  show "scan_string p q l =
      ((pos (snd (scan_string p q l)), ILLEGAL, lit ''didn't find end quote in string''),
       snd (scan_string p q l))"
    if "stop = [] \<or> stop = [rune_of CHR 0x5C]"
    using that
  proof
    assume "stop = []"
    with l1(2) have "ch l1 < 0" by (simp add: upcoming_Nil)
    with l1(1) assms(3) show ?thesis
      by (simp add: scan_string_def string_loop_eof)
  next
    assume "stop = [rune_of CHR 0x5C]"
    with l1(2) have "upcoming l1 = [rune_of CHR 0x5C]" by simp
    from upcoming_single [OF this]
    have "ch l1 = rune_of CHR 0x5C" "ch (next_ch (next_ch l1)) < 0" by auto
    with l1(1) assms(2,3) show ?thesis
      by (simp add: scan_string_def string_loop_esc string_loop_eof)
  qed
  show "scan_string p q l =
      ((pos (snd (scan_string p q l)), ILLEGAL, lit ''can't have newline in string''),
       snd (scan_string p q l))"
    if "line_end stop"
  proof -
    from that obtain c r where st: "stop = c # r"
      and c: "c = rune_of CHR 0x0D \<or> c = rune_of CHR 0x0A"
      by (auto simp: line_end_def split: list.splits)
    from l1(2) st have "ch l1 = c"
      using upcoming_Cons(1) [of l1 c r] by simp
    with c assms(4,5) have "string_loop q l1 (map string_char items) =
        (Inl (pos l1, ILLEGAL, lit ''can't have newline in string''), l1)"
      by (intro string_loop_newline) auto
    with l1(1) show ?thesis
      by (simp add: scan_string_def)
  qed
qed

lemma scan_switch_double_quote:
  "c = rune_of CHR 0x22 \<Longrightarrow> scan_switch p c l = scan_string p c l"
  by (simp add: scan_switch_def isDigit_def)

lemma scan_switch_single_quote:
  "c = rune_of CHR 0x27 \<Longrightarrow> scan_switch p c l = scan_string p c l"
  by (simp add: scan_switch_def isDigit_def)

lemma scan_switch_quote:
  "c = rune_of CHR 0x22 \<or> c = rune_of CHR 0x27 \<Longrightarrow> scan_switch p c l = scan_string p c l"
  using scan_switch_double_quote scan_switch_single_quote by blast

lemma scan_token_quote:
  assumes "ch l = rune_of CHR 0x22 \<or> ch l = rune_of CHR 0x27"
  shows "scan_token l = scan_string (pos l) (ch l) (next_ch l)"
proof -
  from assms have "\<not> ch l < 0" "\<not> isNameStart (ch l)"
    by (auto simp: isNameStart_def)
  then show ?thesis
    using scan_switch_quote [OF assms] by (simp add: scan_token_def Let_def)
qed

text \<open>\<open>Scan\<close> at a string literal opened by the quote \<open>q\<close>, closed or not.\<close>

lemma Scan_string:
  assumes "fst (skip_blank l) = None"
    and "q = rune_of CHR 0x22 \<or> q = rune_of CHR 0x27"
    and "list_all (string_item_ok q) items"
  shows "upcoming (token_start l) = q # source_text items @ q # rest \<Longrightarrow>
           fst (Scan l) = (pos (token_start l), STRING, Str (map string_char items))
           \<and> upcoming (snd (Scan l)) = rest"
    and "upcoming (token_start l) = q # source_text items @ stop \<Longrightarrow>
         stop = [] \<or> stop = [rune_of CHR 0x5C] \<Longrightarrow>
           fst (Scan l) = (pos (snd (Scan l)), ILLEGAL, lit ''didn't find end quote in string'')"
    and "upcoming (token_start l) = q # source_text items @ stop \<Longrightarrow> line_end stop \<Longrightarrow>
           fst (Scan l) = (pos (snd (Scan l)), ILLEGAL, lit ''can't have newline in string'')"
proof -
  define l1 where "l1 = token_start l"
  from assms(2) have q: "q \<noteq> rune_of CHR 0x5C" "0 \<le> q" "q \<noteq> rune_of CHR 0x0D"
    "q \<noteq> rune_of CHR 0x0A"
    by auto
  from assms(1) have sb: "skip_blank l = (None, l1)"
    by (cases "skip_blank l") (simp add: token_start_def l1_def)
  have sc: "scan l = scan_token l1"
    using sb by (rule scan_None)
  have tk: "scan_token l1 = scan_string (pos l1) q (next_ch l1)"
    if "upcoming l1 = q # rs" for rs
    using upcoming_Cons(1) [OF that] assms(2) scan_token_quote [of l1] by auto
  show "fst (Scan l) = (pos (token_start l), STRING, Str (map string_char items))
      \<and> upcoming (snd (Scan l)) = rest"
    if u: "upcoming (token_start l) = q # source_text items @ q # rest"
  proof -
    from u have u1: "upcoming l1 = q # source_text items @ q # rest"
      by (simp add: l1_def)
    from upcoming_Cons(3) [OF u1]
    have "upcoming (next_ch l1) = source_text items @ q # rest" .
    from scan_string_closed [OF assms(3) q(1) this, of "pos l1"] tk [OF u1] sc
    show ?thesis
      by (simp add: Scan_fst Scan_snd l1_def)
  qed
  show "fst (Scan l) = (pos (snd (Scan l)), ILLEGAL, lit ''didn't find end quote in string'')"
    if u: "upcoming (token_start l) = q # source_text items @ stop"
      and st: "stop = [] \<or> stop = [rune_of CHR 0x5C]"
  proof -
    from u have u1: "upcoming l1 = q # source_text items @ stop"
      by (simp add: l1_def)
    from upcoming_Cons(3) [OF u1]
    have "upcoming (next_ch l1) = source_text items @ stop" .
    from scan_string_open(1) [OF assms(3) q this st, of "pos l1"] tk [OF u1] sc
    have "scan l = ((pos (snd (scan l)), ILLEGAL, lit ''didn't find end quote in string''),
        snd (scan l))"
      by simp
    then have "fst (scan l) = (pos (snd (scan l)), ILLEGAL, lit ''didn't find end quote in string'')"
      by (metis fst_conv)
    then show ?thesis
      by (simp add: Scan_fst Scan_snd)
  qed
  show "fst (Scan l) = (pos (snd (Scan l)), ILLEGAL, lit ''can't have newline in string'')"
    if u: "upcoming (token_start l) = q # source_text items @ stop" and st: "line_end stop"
  proof -
    from u have u1: "upcoming l1 = q # source_text items @ stop"
      by (simp add: l1_def)
    from upcoming_Cons(3) [OF u1]
    have "upcoming (next_ch l1) = source_text items @ stop" .
    from scan_string_open(2) [OF assms(3) q this st, of "pos l1"] tk [OF u1] sc
    have "scan l = ((pos (snd (scan l)), ILLEGAL, lit ''can't have newline in string''),
        snd (scan l))"
      by simp
    then have "fst (scan l) = (pos (snd (scan l)), ILLEGAL, lit ''can't have newline in string'')"
      by (metis fst_conv)
    then show ?thesis
      by (simp add: Scan_fst Scan_snd)
  qed
qed

lemma pos_inv_next: "pos_ok (nextPos l) \<Longrightarrow> pos_inv (next_ch l)"
proof -
  assume a: "pos_ok (nextPos l)"
  obtain r n where d: "DecodeRune (drop (offset l) (src l)) = (r, n)" by fastforce
  have "0 \<le> r"
    using DecodeRune_nonneg [of "drop (offset l) (src l)"] d by simp
  with a d show ?thesis
    by (auto simp: next_ch_def Let_def pos_inv_def pos_ok_def)
qed

lemma pos_inv_steps: "steps l l1 \<Longrightarrow> pos_inv l \<Longrightarrow> pos_inv l1"
proof (induction rule: steps.induct)
  case (steps_next l l1)
  then have "pos_ok (nextPos l1)" by (simp add: pos_inv_def)
  then show ?case by (rule pos_inv_next)
qed simp

lemma pos_inv_hadSpace [simp]: "pos_inv (l\<lparr>hadSpace := b\<rparr>) = pos_inv l"
  by (simp add: pos_inv_def)

lemma pos_inv_lastTok [simp]: "pos_inv (l\<lparr>lastTok := t\<rparr>) = pos_inv l"
  by (simp add: pos_inv_def)

lemma pos_inv_New: "pos_inv (NewLexer tok0 s)"
  unfolding NewLexer_def by (rule pos_inv_next) (simp add: pos_ok_def)

text \<open>\<open>scan\<close> leaves a lexer, and returns a position, that \<open>next\<close> has made.\<close>

lemma scan_steps:
  "\<exists>l1 l2. steps l l1 \<and> snd (scan l) = l1\<lparr>hadSpace := is_blank (ch l)\<rparr>
     \<and> steps l l2 \<and> fst (fst (scan l)) = pos l2"
proof -
  from skip_blank_steps [of l] obtain l1 where
    l1: "steps l l1" "snd (skip_blank l) = l1\<lparr>hadSpace := is_blank (ch l)\<rparr>"
      "\<forall>r. fst (skip_blank l) = Some r \<longrightarrow> early l1 r"
    by blast
  define Y where "Y = l1\<lparr>hadSpace := is_blank (ch l)\<rparr>"
  obtain r where sb: "skip_blank l = (r, Y)"
    using l1(2) by (cases "skip_blank l") (simp add: Y_def)
  show ?thesis
  proof (cases r)
    case (Some r')
    with sb l1 have "scan l = (r', Y)" "fst r' = pos l1"
      by (simp_all add: scan_Some early_def)
    with l1(1) show ?thesis
      unfolding Y_def by auto
  next
    case None
    with sb have sc: "scan l = scan_token Y" by (simp add: scan_None)
    show ?thesis
    proof (cases "ch Y < 0")
      case True
      then have "scan_token Y =
          ((pos Y, if errorMsg Y \<noteq> Str [] then ILLEGAL else EOF, errorMsg Y), Y)"
        by (rule scan_token_end)
      with sc l1(1) show ?thesis
        unfolding Y_def by auto
    next
      case False
      then have ret: "returns (pos Y) (next_ch Y) (scan_token Y)"
        by (intro scan_token_returns) simp
      then have "steps (next_ch Y) (snd (scan_token Y))"
        by (simp add: returns_def)
      then have "steps Y (snd (scan_token Y))"
        by (rule steps_from_next)
      from steps_hadSpace_update [OF this Y_def] obtain l3 where
        l3: "steps l1 l3" "snd (scan_token Y) = l3\<lparr>hadSpace := is_blank (ch l)\<rparr>"
        by blast
      have s3: "steps l l3"
        using l3(1) l1(1) by (rule steps_trans)
      from ret have "fst (fst (scan_token Y)) = pos l1 \<or> fst (fst (scan_token Y)) = pos l3"
        using l3(2) by (auto simp: returns_def early_def Y_def)
      with sc l3(2) s3 l1(1) show ?thesis
        by auto
    qed
  qed
qed

lemma scan_pos_inv:
  assumes "pos_inv l"
  shows "pos_inv (snd (scan l))" and "pos_ok (fst (fst (scan l)))"
proof -
  from scan_steps [of l] obtain l1 l2 where
    a: "steps l l1" "snd (scan l) = l1\<lparr>hadSpace := is_blank (ch l)\<rparr>"
      "steps l l2" "fst (fst (scan l)) = pos l2"
    by blast
  from pos_inv_steps [OF a(1) assms] a(2) show "pos_inv (snd (scan l))"
    by simp
  from pos_inv_steps [OF a(3) assms] a(4) show "pos_ok (fst (fst (scan l)))"
    by (simp add: pos_inv_def)
qed

text \<open>Where \<open>scan\<close> stands after a \<open>DIV\<close> and after a \<open>DIV_ASSIGN\<close>.\<close>

lemma scan_slash_pos:
  assumes "pos_inv l"
  shows "tok_of (scan l) = DIV \<Longrightarrow>
           pos (snd (scan l)) = (fst (fst (scan l)))\<lparr>Column := Column (fst (fst (scan l))) + 1\<rparr>"
    and "tok_of (scan l) = DIV_ASSIGN \<Longrightarrow>
           pos (snd (scan l)) = (fst (fst (scan l)))\<lparr>Column := Column (fst (fst (scan l))) + 2\<rparr>"
proof -
  from skip_blank_steps [of l] obtain l1 where
    l1: "steps l l1" "snd (skip_blank l) = l1\<lparr>hadSpace := is_blank (ch l)\<rparr>"
      "\<forall>r. fst (skip_blank l) = Some r \<longrightarrow> early l1 r"
    by blast
  define Y where "Y = l1\<lparr>hadSpace := is_blank (ch l)\<rparr>"
  have iY: "pos_inv Y"
    using pos_inv_steps [OF l1(1) assms] by (simp add: Y_def)
  obtain r where sb: "skip_blank l = (r, Y)"
    using l1(2) by (cases "skip_blank l") (simp add: Y_def)
  have main: "tok_of (scan l) = DIV \<or> tok_of (scan l) = DIV_ASSIGN \<Longrightarrow>
      scan l = scan_token Y \<and> ch Y = rune_of CHR ''/''"
  proof -
    assume t: "tok_of (scan l) = DIV \<or> tok_of (scan l) = DIV_ASSIGN"
    show ?thesis
    proof (cases r)
      case (Some r')
      with sb l1 have "scan l = (r', Y)" "fst (snd r') = ILLEGAL"
        by (simp_all add: scan_Some early_def)
      with t show ?thesis by (simp add: tok_of_def)
    next
      case None
      with sb have sc: "scan l = scan_token Y" by (simp add: scan_None)
      with t scan_token_plain [of Y] show ?thesis
        by (auto simp: plain_def)
    qed
  qed
  have nY: "nextPos Y = (pos Y)\<lparr>Column := Column (pos Y) + 1\<rparr>" if "ch Y = rune_of CHR ''/''"
    using iY that by (simp add: pos_inv_def)
  show "pos (snd (scan l)) = (fst (fst (scan l)))\<lparr>Column := Column (fst (fst (scan l))) + 1\<rparr>"
    if "tok_of (scan l) = DIV"
  proof -
    from main that have sc: "scan l = scan_token Y" and c: "ch Y = rune_of CHR ''/''"
      by auto
    from that sc c have "scan_token Y = ((pos Y, DIV, Str []), next_ch Y)"
      by (auto simp: scan_token_slash tok_of_def split: if_splits)
    with sc nY [OF c] show ?thesis by simp
  qed
  show "pos (snd (scan l)) = (fst (fst (scan l)))\<lparr>Column := Column (fst (fst (scan l))) + 2\<rparr>"
    if "tok_of (scan l) = DIV_ASSIGN"
  proof -
    from main that have sc: "scan l = scan_token Y" and c: "ch Y = rune_of CHR ''/''"
      by auto
    from that sc c have eq: "ch (next_ch Y) = rune_of CHR ''=''"
      and st: "scan_token Y = ((pos Y, DIV_ASSIGN, Str []), next_ch (next_ch Y))"
      by (auto simp: scan_token_slash tok_of_def split: if_splits)
    have "pos_inv (next_ch Y)"
      using iY by (intro pos_inv_next) (simp add: pos_inv_def)
    with eq have "nextPos (next_ch Y) = (pos (next_ch Y))\<lparr>Column := Column (pos (next_ch Y)) + 1\<rparr>"
      by (simp add: pos_inv_def)
    with sc st nY [OF c] show ?thesis by simp
  qed
qed

lemma regex_rest_returns: "returns p l (regex_rest p l runes)"
  using regex_loop_steps [of l runes]
  by (auto simp: regex_rest_def returns_def split: prod.splits sum.splits intro: steps.intros)

lemma regex_rest_tok:
  "tok_of (regex_rest p l runes) = REGEX \<or> tok_of (regex_rest p l runes) = ILLEGAL"
  using regex_loop_steps [of l runes]
  by (auto simp: regex_rest_def tok_of_def early_def split: prod.splits sum.splits)

lemma scanRegex_tok: "tok_of (scanRegex l) = REGEX \<or> tok_of (scanRegex l) = ILLEGAL"
  using regex_rest_tok by (simp add: scanRegex_def tok_of_def)

lemma ScanRegex_fst: "fst (ScanRegex l) = fst (scanRegex l)"
  by (simp add: ScanRegex_def split: prod.splits)

lemma ScanRegex_snd: "snd (ScanRegex l) = (snd (scanRegex l))\<lparr>lastTok := tok_of (scanRegex l)\<rparr>"
  by (simp add: ScanRegex_def tok_of_def split: prod.splits)

lemma scanRegex_steps: "steps l (snd (scanRegex l))"
  using regex_rest_returns by (simp add: scanRegex_def returns_def steps.intros)

lemma scanRegex_pos:
  assumes "pos_inv l" and "after_slash l"
  shows "pos_ok (fst (fst (scanRegex l)))"
proof -
  have early_ok: "pos_ok (fst (fst out))"
    if "returns p l out" and "pos_ok p" for p out
  proof -
    from that(1) have "pos_inv (snd out)"
      using pos_inv_steps [OF _ assms(1)] by (simp add: returns_def)
    with that show ?thesis
      by (auto simp: returns_def early_def pos_inv_def)
  qed
  from assms have p: "pos_ok (pos l)"
    by (simp add: pos_inv_def)
  show ?thesis
  proof (cases "lastTok l = DIV")
    case True
    with assms(2) p have "pos_ok ((pos l)\<lparr>Column := Column (pos l) - 1\<rparr>)"
      by (simp add: after_slash_def pos_ok_def)
    from early_ok [OF regex_rest_returns this] True show ?thesis
      by (simp add: scanRegex_def)
  next
    case nd: False
    show ?thesis
    proof (cases "lastTok l = DIV_ASSIGN")
      case True
      with assms(2) p have "pos_ok ((pos l)\<lparr>Column := Column (pos l) - 2\<rparr>)"
        by (simp add: after_slash_def pos_ok_def)
      from early_ok [OF regex_rest_returns this] True show ?thesis
        by (simp add: scanRegex_def)
    next
      case False
      with nd p show ?thesis
        by (simp add: scanRegex_def)
    qed
  qed
qed

lemma lexer_state_inv:
  assumes "tok0 \<noteq> DIV" and "tok0 \<noteq> DIV_ASSIGN" and "lexer_state tok0 l"
  shows "pos_inv l \<and> after_slash l"
  using assms(3)
proof (induction rule: lexer_state.induct)
  case (state_New s)
  have "lastTok (NewLexer tok0 s) = tok0"
    by (simp add: NewLexer_def)
  with assms(1,2) show ?case
    by (simp add: pos_inv_New after_slash_def)
next
  case (state_Scan l)
  then have i: "pos_inv l" by simp
  have "pos_inv (snd (Scan l))"
    using scan_pos_inv(1) [OF i] by (simp add: Scan_snd)
  moreover have "after_slash (snd (Scan l))"
    using scan_slash_pos [OF i] scan_pos_inv(2) [OF i]
    by (auto simp: after_slash_def Scan_snd pos_ok_def)
  ultimately show ?case by simp
next
  case (state_ScanRegex l)
  then have i: "pos_inv l" by simp
  have "pos_inv (snd (ScanRegex l))"
    using pos_inv_steps [OF scanRegex_steps i] by (simp add: ScanRegex_snd)
  moreover have "after_slash (snd (ScanRegex l))"
    using scanRegex_tok [of l] by (auto simp: after_slash_def ScanRegex_snd)
  ultimately show ?case by simp
qed

lemma regex_text_simps [simp]:
  "regex_text [] = []"
  "regex_text (i # items) = regex_chars i @ regex_text items"
  by (simp_all add: regex_text_def)


lemma regex_loop_stop: "ch l = rune_of CHR ''/'' \<Longrightarrow> regex_loop l runes = (Inr runes, l)"
  by (subst regex_loop.simps) simp

lemma regex_loop_plain:
  "ch l \<noteq> rune_of CHR ''/'' \<Longrightarrow> 0 \<le> ch l \<Longrightarrow> ch l \<noteq> rune_of CHR 0x0D \<Longrightarrow>
   ch l \<noteq> rune_of CHR 0x0A \<Longrightarrow> ch l \<noteq> rune_of CHR 0x5C \<Longrightarrow>
   regex_loop l runes = regex_loop (next_ch l) (runes @ [ch l])"
  by (subst regex_loop.simps) (simp add: Let_def)

lemma regex_loop_esc:
  "ch l = rune_of CHR 0x5C \<Longrightarrow>
   regex_loop l runes = regex_loop (next_ch (next_ch l)) (runes @ regex_chars (Esc (ch (next_ch l))))"
  by (subst regex_loop.simps) (simp add: Let_def)

lemma regex_loop_eof:
  "ch l < 0 \<Longrightarrow>
   regex_loop l runes = (Inl (pos l, ILLEGAL, lit ''didn't find end slash in regex''), l)"
  by (subst regex_loop.simps) (simp add: Let_def)

lemma regex_loop_newline:
  "ch l = rune_of CHR 0x0D \<or> ch l = rune_of CHR 0x0A \<Longrightarrow>
   regex_loop l runes = (Inl (pos l, ILLEGAL, lit ''can't have newline in regex''), l)"
  by (subst regex_loop.simps) (auto simp: Let_def)

lemma regex_loop_items:
  assumes "list_all regex_item_ok items" and "upcoming l = source_text items @ rest"
  shows "\<exists>l1. regex_loop l runes = regex_loop l1 (runes @ regex_text items) \<and> upcoming l1 = rest"
  using assms
proof (induction items arbitrary: l runes)
  case Nil
  then show ?case by auto
next
  case (Cons i items)
  show ?case
  proof (cases i)
    case (Plain c)
    with Cons.prems have u: "upcoming l = c # source_text items @ rest" by simp
    from upcoming_Cons [OF u] have c: "ch l = c" "0 \<le> c"
      and u1: "upcoming (next_ch l) = source_text items @ rest" by auto
    from Cons.prems(1) Plain c have eq:
      "regex_loop l runes = regex_loop (next_ch l) (runes @ [c])"
      by (simp add: regex_loop_plain)
    from Cons.IH [OF _ u1, of "runes @ [c]"] Cons.prems(1) obtain l1 where
      "regex_loop (next_ch l) (runes @ [c]) = regex_loop l1 ((runes @ [c]) @ regex_text items)"
      "upcoming l1 = rest"
      by auto
    with eq Plain show ?thesis
      by (intro exI [of _ l1]) simp
  next
    case (Esc x)
    with Cons.prems have u: "upcoming l = rune_of CHR 0x5C # x # source_text items @ rest"
      by simp
    from upcoming_Cons [OF u] have c: "ch l = rune_of CHR 0x5C"
      and u1: "upcoming (next_ch l) = x # source_text items @ rest" by auto
    from upcoming_Cons [OF u1] have x: "ch (next_ch l) = x"
      and u2: "upcoming (next_ch (next_ch l)) = source_text items @ rest" by auto
    from c x have eq:
      "regex_loop l runes = regex_loop (next_ch (next_ch l)) (runes @ regex_chars (Esc x))"
      by (simp only: regex_loop_esc)
    from Cons.IH [OF _ u2, of "runes @ regex_chars (Esc x)"] Cons.prems(1) obtain l1 where
      "regex_loop (next_ch (next_ch l)) (runes @ regex_chars (Esc x)) =
         regex_loop l1 ((runes @ regex_chars (Esc x)) @ regex_text items)"
      "upcoming l1 = rest"
      by auto
    with eq Esc show ?thesis
      by (intro exI [of _ l1]) simp
  qed
qed

lemma regex_rest_closed:
  assumes "list_all regex_item_ok items"
    and "upcoming l = source_text items @ rune_of CHR ''/'' # rest"
  shows "fst (regex_rest p l runes) = (p, REGEX, Str (runes @ regex_text items))"
    and "upcoming (snd (regex_rest p l runes)) = rest"
proof -
  from regex_loop_items [OF assms, of runes] obtain l1 where
    l1: "regex_loop l runes = regex_loop l1 (runes @ regex_text items)"
      "upcoming l1 = rune_of CHR ''/'' # rest"
    by auto
  from upcoming_Cons [OF l1(2)] have "ch l1 = rune_of CHR ''/''" "upcoming (next_ch l1) = rest"
    by auto
  with l1(1) show "fst (regex_rest p l runes) = (p, REGEX, Str (runes @ regex_text items))"
    and "upcoming (snd (regex_rest p l runes)) = rest"
    by (simp_all add: regex_rest_def regex_loop_stop)
qed

lemma regex_rest_open:
  assumes "list_all regex_item_ok items" and "upcoming l = source_text items @ stop"
  shows "stop = [] \<or> stop = [rune_of CHR 0x5C] \<Longrightarrow>
           regex_rest p l runes =
             ((pos (snd (regex_rest p l runes)), ILLEGAL, lit ''didn't find end slash in regex''),
              snd (regex_rest p l runes))"
    and "line_end stop \<Longrightarrow>
           regex_rest p l runes =
             ((pos (snd (regex_rest p l runes)), ILLEGAL, lit ''can't have newline in regex''),
              snd (regex_rest p l runes))"
proof -
  from regex_loop_items [OF assms, of runes] obtain l1 where
    l1: "regex_loop l runes = regex_loop l1 (runes @ regex_text items)"
      "upcoming l1 = stop"
    by auto
  show "regex_rest p l runes =
      ((pos (snd (regex_rest p l runes)), ILLEGAL, lit ''didn't find end slash in regex''),
       snd (regex_rest p l runes))"
    if "stop = [] \<or> stop = [rune_of CHR 0x5C]"
    using that
  proof
    assume "stop = []"
    with l1(2) have "ch l1 < 0" by (simp add: upcoming_Nil)
    with l1(1) show ?thesis
      by (simp add: regex_rest_def regex_loop_eof)
  next
    assume "stop = [rune_of CHR 0x5C]"
    with l1(2) have "upcoming l1 = [rune_of CHR 0x5C]" by simp
    from upcoming_single [OF this]
    have "ch l1 = rune_of CHR 0x5C" "ch (next_ch (next_ch l1)) < 0" by auto
    with l1(1) show ?thesis
      by (simp add: regex_rest_def regex_loop_esc regex_loop_eof del: regex_chars.simps)
  qed
  show "regex_rest p l runes =
      ((pos (snd (regex_rest p l runes)), ILLEGAL, lit ''can't have newline in regex''),
       snd (regex_rest p l runes))"
    if "line_end stop"
  proof -
    from that obtain c r where st: "stop = c # r"
      and c: "c = rune_of CHR 0x0D \<or> c = rune_of CHR 0x0A"
      by (auto simp: line_end_def split: list.splits)
    from l1(2) st have "ch l1 = c"
      using upcoming_Cons(1) [of l1 c r] by simp
    with c have "regex_loop l1 (runes @ regex_text items) =
        (Inl (pos l1, ILLEGAL, lit ''can't have newline in regex''), l1)"
      by (intro regex_loop_newline) auto
    with l1(1) show ?thesis
      by (simp add: regex_rest_def)
  qed
qed




lemma ScanRegex_open:
  assumes "lastTok l = DIV \<or> lastTok l = DIV_ASSIGN"
    and "list_all regex_item_ok items" and "upcoming l = source_text items @ stop"
  shows "stop = [] \<or> stop = [rune_of CHR 0x5C] \<Longrightarrow>
           fst (ScanRegex l) =
             (pos (snd (ScanRegex l)), ILLEGAL, lit ''didn't find end slash in regex'')"
    and "line_end stop \<Longrightarrow>
           fst (ScanRegex l) =
             (pos (snd (ScanRegex l)), ILLEGAL, lit ''can't have newline in regex'')"
proof -
  obtain p runes where sr: "scanRegex l = regex_rest p l runes"
    using assms(1) by (auto simp: scanRegex_def)
  show "fst (ScanRegex l) =
      (pos (snd (ScanRegex l)), ILLEGAL, lit ''didn't find end slash in regex'')"
    if "stop = [] \<or> stop = [rune_of CHR 0x5C]"
  proof -
    from regex_rest_open(1) [OF assms(2,3) that, of p runes] sr
    have "scanRegex l =
        ((pos (snd (scanRegex l)), ILLEGAL, lit ''didn't find end slash in regex''),
         snd (scanRegex l))"
      by simp
    then have "fst (scanRegex l) =
        (pos (snd (scanRegex l)), ILLEGAL, lit ''didn't find end slash in regex'')"
      by (metis fst_conv)
    then show ?thesis
      by (simp add: ScanRegex_fst ScanRegex_snd)
  qed
  show "fst (ScanRegex l) =
      (pos (snd (ScanRegex l)), ILLEGAL, lit ''can't have newline in regex'')"
    if "line_end stop"
  proof -
    from regex_rest_open(2) [OF assms(2,3) that, of p runes] sr
    have "scanRegex l =
        ((pos (snd (scanRegex l)), ILLEGAL, lit ''can't have newline in regex''),
         snd (scanRegex l))"
      by simp
    then have "fst (scanRegex l) =
        (pos (snd (scanRegex l)), ILLEGAL, lit ''can't have newline in regex'')"
      by (metis fst_conv)
    then show ?thesis
      by (simp add: ScanRegex_fst ScanRegex_snd)
  qed
qed

lemma utf8_inv_next: "utf8_inv (next_ch l)"
proof -
  obtain r n where d: "DecodeRune (drop (offset l) (src l)) = (r, n)" by fastforce
  have r: "0 \<le> r"
    using DecodeRune_nonneg [of "drop (offset l) (src l)"] d by simp
  have "n = 0 \<longleftrightarrow> drop (offset l) (src l) = []"
    using DecodeRune_size_0 [of "drop (offset l) (src l)"] d by simp
  with d r show ?thesis
    by (auto simp: next_ch_def Let_def utf8_inv_def)
qed

lemma utf8_inv_steps: "steps l l1 \<Longrightarrow> utf8_inv l \<Longrightarrow> utf8_inv l1"
  by (induction rule: steps.induct) (simp_all add: utf8_inv_next)

lemma utf8_inv_hadSpace [simp]: "utf8_inv (l\<lparr>hadSpace := b\<rparr>) = utf8_inv l"
  by (simp add: utf8_inv_def)

lemma utf8_inv_lastTok [simp]: "utf8_inv (l\<lparr>lastTok := t\<rparr>) = utf8_inv l"
  by (simp add: utf8_inv_def)

lemma lexer_state_utf8_inv: "lexer_state tok0 l \<Longrightarrow> utf8_inv l"
proof (induction rule: lexer_state.induct)
  case (state_New s)
  show ?case unfolding NewLexer_def by (rule utf8_inv_next)
next
  case (state_Scan l)
  from scan_steps [of l] obtain l1 where
    "steps l l1" "snd (scan l) = l1\<lparr>hadSpace := is_blank (ch l)\<rparr>"
    by blast
  with utf8_inv_steps [OF _ state_Scan.IH] show ?case
    by (simp add: Scan_snd)
next
  case (state_ScanRegex l)
  then show ?case
    using utf8_inv_steps [OF scanRegex_steps, of l] by (simp add: ScanRegex_snd)
qed

text \<open>
  The offset stays within the source, so that \<open>drop (offset l) (src l)\<close> is the slice
  \<open>l.src[l.offset:]\<close> in every state of a lexer in use.
\<close>

lemma offset_next: "offset l \<le> length (src l) \<Longrightarrow> offset (next_ch l) \<le> length (src (next_ch l))"
proof -
  assume a: "offset l \<le> length (src l)"
  obtain r n where d: "DecodeRune (drop (offset l) (src l)) = (r, n)" by fastforce
  have "n \<le> length (src l) - offset l"
    using DecodeRune_size_le [of "drop (offset l) (src l)"] d by simp
  with a d show ?thesis
    by (auto simp: next_ch_def Let_def)
qed

lemma offset_steps:
  "steps l l1 \<Longrightarrow> offset l \<le> length (src l) \<Longrightarrow> offset l1 \<le> length (src l1)"
proof (induction rule: steps.induct)
  case (steps_refl l)
  then show ?case by simp
next
  case (steps_next l l1)
  then show ?case using offset_next [of l1] by simp
qed

lemma lexer_state_offset: "lexer_state tok0 l \<Longrightarrow> offset l \<le> length (src l)"
proof (induction rule: lexer_state.induct)
  case (state_New s)
  show ?case unfolding NewLexer_def by (rule offset_next) simp
next
  case (state_Scan l)
  from scan_steps [of l] obtain l1 where
    "steps l l1" "snd (scan l) = l1\<lparr>hadSpace := is_blank (ch l)\<rparr>"
    by blast
  with offset_steps [OF _ state_Scan.IH] show ?case
    by (simp add: Scan_snd)
next
  case (state_ScanRegex l)
  then show ?case
    using offset_steps [OF scanRegex_steps, of l] by (simp add: ScanRegex_snd)
qed

lemma invalid_inv_next: "invalid_inv l \<Longrightarrow> invalid_inv (next_ch l)"
proof -
  assume a: "invalid_inv l"
  obtain r n where d: "DecodeRune (drop (offset l) (src l)) = (r, n)" by fastforce
  have r: "0 \<le> r"
    using DecodeRune_nonneg [of "drop (offset l) (src l)"] d by simp
  have n: "n = 0 \<longleftrightarrow> drop (offset l) (src l) = []"
    using DecodeRune_size_0 [of "drop (offset l) (src l)"] d by simp
  have h: "has_invalid (drop (offset l) (src l)) =
      (if n = 0 then False else if r = RuneError \<and> n = 1 then True
       else has_invalid (drop n (drop (offset l) (src l))))"
    using d by (subst has_invalid.simps) simp
  show ?thesis
    using a d r n h
    by (auto simp: next_ch_def Let_def invalid_inv_def add.commute)
qed

lemma invalid_inv_steps: "steps l l1 \<Longrightarrow> invalid_inv l \<Longrightarrow> invalid_inv l1"
  by (induction rule: steps.induct) (simp_all add: invalid_inv_next)

lemma invalid_inv_hadSpace [simp]: "invalid_inv (l\<lparr>hadSpace := b\<rparr>) = invalid_inv l"
  by (simp add: invalid_inv_def)

lemma invalid_inv_lastTok [simp]: "invalid_inv (l\<lparr>lastTok := t\<rparr>) = invalid_inv l"
  by (simp add: invalid_inv_def)

lemma invalid_inv_New: "has_invalid s \<Longrightarrow> invalid_inv (NewLexer tok0 s)"
  unfolding NewLexer_def by (rule invalid_inv_next) (simp add: invalid_inv_def)

lemma invalid_inv_Scan: "invalid_inv l \<Longrightarrow> invalid_inv (snd (Scan l))"
proof -
  assume a: "invalid_inv l"
  from scan_steps [of l] obtain l1 where
    "steps l l1" "snd (scan l) = l1\<lparr>hadSpace := is_blank (ch l)\<rparr>"
    by blast
  with invalid_inv_steps [OF _ a] show ?thesis
    by (simp add: Scan_snd)
qed

lemma no_eof_if: "no_eof a \<Longrightarrow> no_eof b \<Longrightarrow> no_eof (if c then a else b)"
  by simp

lemma no_eof_emit: "tok \<noteq> EOF \<Longrightarrow> no_eof (emit p tok l)"
  by (simp add: no_eof_def tok_of_def emit_def)

lemma no_eof_choice:
  "one \<noteq> EOF \<Longrightarrow> two \<noteq> EOF \<Longrightarrow>
   no_eof (case choice l0 c one two of (tok, l1) \<Rightarrow> emit p tok l1)"
  by (simp add: no_eof_def tok_of_def emit_def choice_def)

lemma no_eof_amp:
  "no_eof (case choice l c ILLEGAL AND of
          (tok, l1) \<Rightarrow>
            if tok = ILLEGAL then ((pos l1, ILLEGAL, Sprintf f [ArgRune (ch l1)]), l1)
            else emit p tok l1)"
  by (simp add: choice_def emit_def no_eof_def tok_of_def)

lemma no_eof_illegal: "no_eof ((p, ILLEGAL, v), l)"
  by (simp add: no_eof_def tok_of_def)

lemma no_eof_number: "no_eof (scan_number p c l)"
  using scan_number_tok [of p c l] by (auto simp: no_eof_def tok_of_def)

lemma no_eof_string: "no_eof (scan_string p c l)"
  using scan_string_tok [of p c l] by (auto simp: no_eof_def tok_of_def)

lemma scan_switch_no_eof: "no_eof (scan_switch p c l)"
  unfolding scan_switch_def
  by (intro no_eof_if no_eof_amp no_eof_illegal no_eof_number no_eof_string
        no_eof_choice no_eof_emit) simp_all

lemma scan_token_EOF:
  assumes "tok_of (scan_token l) = EOF"
  shows "ch l < 0 \<and> errorMsg l = Str []"
proof (cases "ch l < 0")
  case True
  with assms show ?thesis
    by (auto simp: scan_token_end tok_of_def split: if_splits)
next
  case False
  show ?thesis
  proof (cases "isNameStart (ch l)")
    case True
    obtain name l2 where "name_loop (next_ch l) [ch l] = (name, l2)" by fastforce
    with False True assms show ?thesis
      by (auto simp: scan_token_def Let_def tok_of_def split: option.splits
               dest: keywordTokens_KEYWORD)
  next
    case ns: False
    with False assms scan_switch_no_eof [of "pos l" "ch l" "next_ch l"] show ?thesis
      by (simp add: scan_token_def Let_def no_eof_def)
  qed
qed

lemma remaining_lastTok [simp]: "remaining (l\<lparr>lastTok := t\<rparr>) = remaining l"
  by (simp add: remaining_def)

text \<open>
  What \<open>scan\<close> does in terms of the lexer \<open>Y\<close> at the start of the token: an early
  \<open>ILLEGAL\<close> of the loop over blanks, or the token at \<open>Y\<close>.
\<close>

lemma scan_cases:
  obtains (early) r l1 where "steps l l1" "scan l = (r, l1\<lparr>hadSpace := is_blank (ch l)\<rparr>)"
      "early l1 r"
  | (token) l1 where "steps l l1" "fst (skip_blank l) = None"
      "token_start l = l1\<lparr>hadSpace := is_blank (ch l)\<rparr>"
      "scan l = scan_token (l1\<lparr>hadSpace := is_blank (ch l)\<rparr>)"
proof -
  from skip_blank_steps [of l] obtain l1 where
    l1: "steps l l1" "snd (skip_blank l) = l1\<lparr>hadSpace := is_blank (ch l)\<rparr>"
      "\<forall>r. fst (skip_blank l) = Some r \<longrightarrow> early l1 r"
    by blast
  obtain r where sb: "skip_blank l = (r, l1\<lparr>hadSpace := is_blank (ch l)\<rparr>)"
    using l1(2) by (cases "skip_blank l") simp
  show thesis
  proof (cases r)
    case (Some r')
    with sb l1 have "scan l = (r', l1\<lparr>hadSpace := is_blank (ch l)\<rparr>)" "early l1 r'"
      by (simp_all add: scan_Some)
    with l1(1) show thesis by (rule early)
  next
    case None
    with sb have "scan l = scan_token (l1\<lparr>hadSpace := is_blank (ch l)\<rparr>)"
      "fst (skip_blank l) = None" "token_start l = l1\<lparr>hadSpace := is_blank (ch l)\<rparr>"
      by (simp_all add: scan_None token_start_def)
    with l1(1) show thesis by (intro token) auto
  qed
qed

lemma Scan_progress:
  assumes "tok_of (Scan l) \<noteq> EOF" and "tok_of (Scan l) \<noteq> ILLEGAL"
  shows "remaining (snd (Scan l)) < remaining l"
proof (cases l rule: scan_cases)
  case (early r l1)
  with assms show ?thesis
    by (simp add: tok_of_def Scan_fst early_def)
next
  case (token l1)
  define Y where "Y = l1\<lparr>hadSpace := is_blank (ch l)\<rparr>"
  have sc: "scan l = scan_token Y"
    using token(4) by (simp add: Y_def)
  have "\<not> ch Y < 0"
  proof
    assume "ch Y < 0"
    then have "tok_of (scan_token Y) = EOF \<or> tok_of (scan_token Y) = ILLEGAL"
      by (simp add: scan_token_end tok_of_def)
    with assms sc show False by (simp add: tok_of_Scan)
  qed
  then have nn: "0 \<le> ch Y" by simp
  then have "steps (next_ch Y) (snd (scan_token Y))"
    using scan_token_returns [of Y] by (simp add: returns_def)
  then have "remaining (snd (scan_token Y)) \<le> remaining (next_ch Y)"
    by (rule steps_remaining)
  also have "\<dots> < remaining Y"
    using nn by (rule remaining_next_less)
  also have "\<dots> \<le> remaining l"
    using steps_remaining [OF token(1)] by (simp add: Y_def)
  finally show ?thesis
    using sc by (simp add: Scan_snd)
qed

lemma Scan_not_EOF:
  assumes "invalid_inv l"
  shows "tok_of (Scan l) \<noteq> EOF"
proof (cases l rule: scan_cases)
  case (early r l1)
  then show ?thesis
    by (simp add: tok_of_def Scan_fst early_def)
next
  case (token l1)
  define Y where "Y = l1\<lparr>hadSpace := is_blank (ch l)\<rparr>"
  have iY: "invalid_inv Y"
    using invalid_inv_steps [OF token(1) assms] by (simp add: Y_def)
  show ?thesis
  proof
    assume "tok_of (Scan l) = EOF"
    then have "tok_of (scan_token Y) = EOF"
      using token(4) by (simp add: tok_of_Scan Y_def)
    then have e: "ch Y < 0 \<and> errorMsg Y = Str []"
      by (rule scan_token_EOF)
    with iY have "drop (offset Y) (src Y) = []"
      by (simp add: invalid_inv_def)
    moreover have "\<not> has_invalid []"
      by (subst has_invalid.simps) simp
    ultimately show False
      using iY e by (simp add: invalid_inv_def)
  qed
qed

lemma scan_all_invalid:
  "invalid_inv l \<Longrightarrow> remaining l < n \<Longrightarrow>
   \<exists>rs. scan_all n l = Some rs \<and> rs \<noteq> [] \<and> fst (snd (last rs)) = ILLEGAL
     \<and> list_all (\<lambda>r. fst (snd r) \<noteq> EOF) rs"
proof (induction n arbitrary: l)
  case 0
  then show ?case by simp
next
  case (Suc n)
  obtain r l1 where S: "Scan l = (r, l1)" by fastforce
  have ne: "fst (snd r) \<noteq> EOF"
    using Scan_not_EOF [OF Suc.prems(1)] S by (simp add: tok_of_def)
  show ?case
  proof (cases "fst (snd r) = ILLEGAL")
    case True
    with S show ?thesis by simp
  next
    case False
    with ne S have "remaining l1 < remaining l"
      using Scan_progress [of l] by (simp add: tok_of_def)
    with Suc.prems(2) have "remaining l1 < n" by simp
    moreover have "invalid_inv l1"
      using invalid_inv_Scan [OF Suc.prems(1)] S by simp
    ultimately obtain rs where
      "scan_all n l1 = Some rs" "rs \<noteq> []" "fst (snd (last rs)) = ILLEGAL"
      "list_all (\<lambda>r. fst (snd r) \<noteq> EOF) rs"
      using Suc.IH by blast
    with S ne False show ?thesis by simp
  qed
qed

lemma remaining_New: "remaining (NewLexer tok0 s) \<le> length s"
proof -
  define l0 where "l0 = \<lparr>src = s, offset = 0, ch = 0, errorMsg = Str [],
             pos = \<lparr>Line = 0, Column = 0\<rparr>, nextPos = \<lparr>Line = 1, Column = 1\<rparr>,
             hadSpace = False, lastTok = tok0\<rparr>"
  have "remaining (next_ch l0) < remaining l0"
    by (rule remaining_next_less) (simp add: l0_def)
  then show ?thesis
    by (simp add: NewLexer_def l0_def remaining_def)
qed

lemma Scan_invalid_source:
  assumes "has_invalid s"
  shows "\<exists>rs. scan_all (Suc (length s)) (NewLexer tok0 s) = Some rs \<and> rs \<noteq> []
           \<and> fst (snd (last rs)) = ILLEGAL \<and> list_all (\<lambda>r. fst (snd r) \<noteq> EOF) rs"
  using scan_all_invalid [OF invalid_inv_New [OF assms], where n = "Suc (length s)"]
    remaining_New [of tok0 s]
  by (simp add: less_Suc_eq_le)

lemma Scan_at_token:
  "fst (skip_blank l) = None \<Longrightarrow> scan l = scan_token (token_start l)"
  by (cases "skip_blank l") (simp add: scan_None token_start_def)

lemma Scan_invalid_byte:
  assumes "lexer_state tok0 l" and "fst (skip_blank l) = None"
    and "ch (token_start l) < 0" and "offset (token_start l) < length (src l)"
  shows "fst (Scan l) =
     (pos (token_start l), ILLEGAL,
      Sprintf ''invalid UTF-8 byte 0x%02x'' [ArgByte (src l ! offset (token_start l))])"
proof -
  define Y where "Y = token_start l"
  from skip_blank_steps [of l] obtain l1 where
    l1: "steps l l1" and Y: "Y = l1\<lparr>hadSpace := is_blank (ch l)\<rparr>"
    by (auto simp: Y_def token_start_def)
  have "utf8_inv Y"
    using utf8_inv_steps [OF l1 lexer_state_utf8_inv [OF assms(1)]] by (simp add: Y)
  moreover have "src Y = src l"
    using steps_fields [OF l1] by (simp add: Y)
  ultimately have e: "errorMsg Y =
      Sprintf ''invalid UTF-8 byte 0x%02x'' [ArgByte (src l ! offset Y)]"
    using assms(3,4) by (simp add: utf8_inv_def Y_def)
  have "scan l = scan_token Y"
    using Scan_at_token [OF assms(2)] by (simp add: Y_def)
  with e assms(3) show ?thesis
    by (simp add: Scan_fst scan_token_end Y_def)
qed

lemma scan_switch_amp:
  "c = rune_of CHR ''&'' \<Longrightarrow> ch l \<noteq> rune_of CHR ''&'' \<Longrightarrow>
   scan_switch p c l =
     ((pos l, ILLEGAL,
       Sprintf (''unexpected %q after '' @ [CHR 0x27, CHR ''&'', CHR 0x27]) [ArgRune (ch l)]), l)"
  by (simp add: scan_switch_def choice_def)

lemma scan_switch_other:
  "\<not> token_char c \<Longrightarrow> scan_switch p c l = ((p, ILLEGAL, Sprintf ''unexpected %q'' [ArgRune c]), l)"
  by (simp add: scan_switch_def token_char_def)






lemma blank_before_is_blank:
  assumes "ch l = rune_of CHR 0x5C \<longrightarrow> line_continuation (upcoming l)"
  shows "blank_before (upcoming l) \<longleftrightarrow> is_blank (ch l)"
proof (cases "upcoming l")
  case Nil
  then have "ch l < 0" by (simp add: upcoming_Nil)
  with Nil show ?thesis
    by (auto simp: blank_before_def line_continuation_def is_blank_def)
next
  case (Cons c cs)
  from upcoming_Cons(1) [OF Cons] have c: "ch l = c" .
  show ?thesis
  proof (cases "c = rune_of CHR 0x5C")
    case True
    with assms c Cons show ?thesis
      by (simp add: blank_before_def is_blank_def)
  next
    case False
    then have "\<not> line_continuation (c # cs)"
      by (auto simp: line_continuation_def split: list.splits)
    with False c Cons show ?thesis
      by (auto simp: blank_before_def is_blank_def)
  qed
qed



lemma string_loop_v1_plain:
  "ch l \<noteq> rune_of CHR 0x22 \<Longrightarrow> 0 \<le> ch l \<Longrightarrow> ch l \<noteq> rune_of CHR 0x0D \<Longrightarrow>
   ch l \<noteq> rune_of CHR 0x0A \<Longrightarrow> ch l \<noteq> rune_of CHR 0x5C \<Longrightarrow>
   string_loop_v1 l runes = string_loop_v1 (next_ch l) (runes @ [ch l])"
  by (subst string_loop_v1.simps) (simp add: Let_def)

lemma string_loop_v1_esc:
  "ch l = rune_of CHR 0x5C \<Longrightarrow> known_escape (ch (next_ch l)) \<Longrightarrow>
   string_loop_v1 l runes =
     string_loop_v1 (next_ch (next_ch l)) (runes @ [string_char (Esc (ch (next_ch l)))])"
  by (subst string_loop_v1.simps) (auto simp: Let_def known_escape_def)

lemma string_loop_v1_bad_escape:
  "ch l = rune_of CHR 0x5C \<Longrightarrow> \<not> known_escape (ch (next_ch l)) \<Longrightarrow>
   string_loop_v1 l runes =
     (Inl (pos (next_ch l), ILLEGAL,
        Sprintf (''invalid string escape '' @ [CHR 0x5C] @ ''%c'') [ArgRune (ch (next_ch l))]),
      next_ch l)"
  by (subst string_loop_v1.simps) (simp add: Let_def known_escape_def)







lemma scan_switch_v1_slash:
  "c = rune_of CHR ''/'' \<Longrightarrow>
   scan_switch_v1 p c l =
     (if looksLikeRegex l then regex_rest p l []
      else if ch l = rune_of CHR ''='' then ((p, DIV_ASSIGN, Str []), next_ch l)
      else ((p, DIV, Str []), l))"
  by (simp add: scan_switch_v1_def choice_def emit_def)


lemma scan_token_v1_slash:
  assumes "ch l = rune_of CHR ''/''"
  shows "scan_token_v1 uk kw l =
     (if looksLikeRegex (next_ch l) then regex_rest (pos l) (next_ch l) []
      else if ch (next_ch l) = rune_of CHR ''=''
        then ((pos l, DIV_ASSIGN, Str []), next_ch (next_ch l))
      else ((pos l, DIV, Str []), next_ch l))"
proof -
  from assms have "\<not> ch l < 0" "\<not> isNameStart (ch l)"
    by (auto simp: isNameStart_def)
  then show ?thesis
    using scan_switch_v1_slash [OF assms] by (simp add: scan_token_v1_def Let_def)
qed

lemma Scan_v1_token_start:
  assumes "fst (skip_blank_v1 l) = None"
  shows "Scan_v1 uk kw l = scan_token_v1 uk kw (token_start_v1 l)"
proof -
  from assms have "skip_blank_v1 l = (None, token_start_v1 l)"
    by (cases "skip_blank_v1 l") (simp add: token_start_v1_def)
  then show ?thesis
    by (simp add: Scan_v1_def)
qed

lemma skip_space_v1_steps:
  "steps l (snd (skip_space_v1 l))"
proof (induction "remaining l" arbitrary: l rule: less_induct)
  case less
  define l2 where "l2 = next_ch l"
  define l3 where "l3 = (if ch l2 = rune_of CHR 0x0D then next_ch l2 else l2)"
  have s3: "steps l l3"
    by (auto simp: l3_def l2_def intro: steps.intros)
  show ?case
  proof (cases "is_blank (ch l)")
    case False
    then show ?thesis
      by (subst skip_space_v1.simps) (auto simp: is_blank_def intro: steps.intros)
  next
    case blank: True
    then have nn: "0 \<le> ch l"
      by (auto simp: is_blank_def)
    show ?thesis
    proof (cases "ch l = rune_of CHR 0x5C")
      case False
      with blank have eq: "skip_space_v1 l = skip_space_v1 l2"
        by (subst skip_space_v1.simps) (auto simp: is_blank_def l2_def)
      have "steps l2 (snd (skip_space_v1 l2))"
        using less [of l2] remaining_next_less [OF nn] by (simp add: l2_def)
      then show ?thesis
        unfolding eq l2_def by (rule steps_from_next)
    next
      case bs: True
      show ?thesis
      proof (cases "ch l3 = rune_of CHR 0x0A")
        case False
        with bs have "skip_space_v1 l =
            (Some (pos l3, ILLEGAL,
               lit (''expected '' @ [CHR 0x5C] @ ''n after '' @ [CHR 0x5C]
                      @ '' line continuation'')), l3)"
          by (subst skip_space_v1.simps) (auto simp: l3_def l2_def Let_def)
        with s3 show ?thesis by simp
      next
        case True
        with bs have eq: "skip_space_v1 l = skip_space_v1 (next_ch l3)"
          by (subst skip_space_v1.simps) (auto simp: l3_def l2_def Let_def)
        have "remaining l3 \<le> remaining l2"
          using remaining_next_le [of l2] by (simp add: l3_def)
        moreover have "remaining l2 < remaining l"
          using remaining_next_less [OF nn] by (simp add: l2_def)
        moreover have "remaining (next_ch l3) \<le> remaining l3"
          by (rule remaining_next_le)
        ultimately have "steps (next_ch l3) (snd (skip_space_v1 (next_ch l3)))"
          using less [of "next_ch l3"] by simp
        then have "steps l3 (snd (skip_space_v1 (next_ch l3)))"
          by (rule steps_from_next)
        then show ?thesis
          unfolding eq using s3 by (rule steps_trans)
      qed
    qed
  qed
qed

lemma string_loop_v1_steps:
  "steps l (snd (string_loop_v1 l runes)) \<and>
   (\<forall>r. fst (string_loop_v1 l runes) = Inl r \<longrightarrow> early (snd (string_loop_v1 l runes)) r)"
proof (induction "remaining l" arbitrary: l runes rule: less_induct)
  case less
  show ?case
  proof (cases "ch l \<noteq> rune_of CHR 0x22 \<and> 0 \<le> ch l \<and> ch l \<noteq> rune_of CHR 0x0D
                  \<and> ch l \<noteq> rune_of CHR 0x0A")
    case False
    then show ?thesis
      by (subst (1 2 3) string_loop_v1.simps) (auto simp: early_def lit_def intro: steps_refl)
  next
    case go: True
    show ?thesis
    proof (cases "ch l = rune_of CHR 0x5C")
      case bs: True
      show ?thesis
      proof (cases "known_escape (ch (next_ch l))")
        case True
        have r: "remaining (next_ch (next_ch l)) < remaining l"
          using go by (simp add: remaining_next2)
        show ?thesis
          unfolding string_loop_v1_esc [OF bs True]
          by (rule lift_steps [OF steps_next2 less [OF r]])
      next
        case False
        show ?thesis
          unfolding string_loop_v1_bad_escape [OF bs False]
          by (simp add: early_def steps.intros)
      qed
    next
      case False
      have r: "remaining (next_ch l) < remaining l"
        using go by (simp add: remaining_next_less)
      have eq: "string_loop_v1 l runes = string_loop_v1 (next_ch l) (runes @ [ch l])"
        using go False by (simp add: string_loop_v1_plain)
      show ?thesis
        unfolding eq by (rule lift_steps [OF _ less [OF r]]) (intro steps.intros)
    qed
  qed
qed

lemma scan_string_v1_returns: "returns p l (scan_string_v1 p l)"
  using string_loop_v1_steps [of l "[]"]
  by (auto simp: scan_string_v1_def returns_def split: prod.splits sum.splits intro: steps.intros)

lemma returns_bar:
  "returns p l (case choice l c ILLEGAL OR of
          (tok, l1) \<Rightarrow>
            if tok = ILLEGAL then ((pos l1, ILLEGAL, Sprintf f [ArgRune (ch l1)]), l1)
            else emit p tok l1)"
  by (simp add: choice_def emit_def returns_def early_def steps.intros)

lemma scan_switch_v1_returns: "returns p l (scan_switch_v1 p c l)"
  unfolding scan_switch_v1_def
  by (intro returns_if returns_choice returns_choice_next returns_illegal returns_amp returns_bar
        returns_emit0 returns_emit1 scan_number_returns scan_string_v1_returns
        regex_rest_returns)

lemma scan_token_v1_steps: "steps l (snd (scan_token_v1 uk kw l))"
proof (cases "ch l < 0")
  case True
  then show ?thesis by (simp add: scan_token_v1_def steps.intros)
next
  case nn: False
  have "steps (next_ch l) (snd (scan_token_v1 uk kw l))"
  proof (cases "isNameStart (ch l)")
    case True
    obtain name l2 where n: "name_loop (next_ch l) [ch l] = (name, l2)" by fastforce
    then have "steps (next_ch l) l2"
      using name_loop_steps [of "next_ch l" "[ch l]"] by simp
    with nn True n show ?thesis
      by (simp add: scan_token_v1_def Let_def split: option.splits)
  next
    case False
    with nn show ?thesis
      using scan_switch_v1_returns [of "pos l" "next_ch l" "ch l"]
      by (simp add: scan_token_v1_def Let_def returns_def)
  qed
  then show ?thesis by (rule steps_from_next)
qed

lemma Scan_v1_steps: "steps l (snd (Scan_v1 uk kw l))"
proof -
  obtain r l1 where sb: "skip_space_v1 l = (r, l1)" by fastforce
  with skip_space_v1_steps [of l] have s1: "steps l l1" by simp
  show ?thesis
  proof (cases r)
    case (Some a)
    with sb s1 show ?thesis
      by (simp add: Scan_v1_def skip_blank_v1_def)
  next
    case None
    define l2 where "l2 = (if ch l1 = rune_of CHR ''#'' then skip_comment (next_ch l1) else l1)"
    have "steps l1 l2"
      using skip_comment_steps [of "next_ch l1"]
      by (auto simp: l2_def intro: steps.intros steps_from_next)
    with s1 have "steps l l2" by (rule steps_trans [rotated])
    moreover have "Scan_v1 uk kw l = scan_token_v1 uk kw l2"
      using sb None by (simp add: Scan_v1_def skip_blank_v1_def l2_def)
    ultimately show ?thesis
      using scan_token_v1_steps [of l2 uk kw] by (auto intro: steps_trans)
  qed
qed

lemma offset_inv_next: "offset_inv l \<Longrightarrow> offset_inv (next_ch l)"
proof -
  assume a: "offset_inv l"
  obtain r n where d: "DecodeRune (drop (offset l) (src l)) = (r, n)" by fastforce
  have n: "n \<le> length (src l) - offset l"
    using DecodeRune_size_le [of "drop (offset l) (src l)"] d by simp
  have r: "0 \<le> r"
    using DecodeRune_nonneg [of "drop (offset l) (src l)"] d by simp
  from a d n r show ?thesis
    by (auto simp: next_ch_def Let_def offset_inv_def)
qed

lemma offset_inv_steps: "steps l l1 \<Longrightarrow> offset_inv l \<Longrightarrow> offset_inv l1"
proof (induction rule: steps.induct)
  case (steps_refl l)
  then show ?case by simp
next
  case (steps_next l l1)
  then show ?case using offset_inv_next [of l1] by simp
qed

lemma offset_inv_New: "offset_inv (NewLexer_v1 s)"
proof -
  define l0 where "l0 = \<lparr>src = s, offset = 0, ch = 0, errorMsg = Str [],
             pos = \<lparr>Line = 0, Column = 0\<rparr>, nextPos = \<lparr>Line = 1, Column = 1\<rparr>,
             hadSpace = False, lastTok = ILLEGAL\<rparr>"
  obtain r n where d: "DecodeRune (drop (offset l0) (src l0)) = (r, n)" by fastforce
  have n: "n \<le> length (src l0) - offset l0"
    using DecodeRune_size_le [of "drop (offset l0) (src l0)"] d by simp
  have z: "n = 0 \<longleftrightarrow> drop (offset l0) (src l0) = []"
    using DecodeRune_size_0 [of "drop (offset l0) (src l0)"] d by simp
  from d n z have "offset_inv (next_ch l0)"
    by (auto simp: next_ch_def Let_def offset_inv_def l0_def)
  then show ?thesis
    by (simp add: NewLexer_v1_def l0_def)
qed

text \<open>
  In every state of the earlier lexer the offset is within the source and past the
  current character; so it is at least 1 after a slash, where \<open>Scan\<close> computes
  \<open>prevOfs\<close>.
\<close>

lemma lexer_state_v1_offset: "lexer_state_v1 uk kw l \<Longrightarrow> offset_inv l"
proof (induction rule: lexer_state_v1.induct)
  case (state_v1_New s)
  show ?case by (rule offset_inv_New)
next
  case (state_v1_Scan l)
  then show ?case
    using offset_inv_steps [OF Scan_v1_steps] by simp
qed

lemma offset_after_slash:
  assumes "steps l0 l" and "offset_inv l0" and "0 \<le> ch l"
  shows "1 \<le> offset (next_ch l)"
proof -
  from offset_inv_steps [OF assms(1,2)] have "offset_inv l" .
  with assms(3) have "1 \<le> offset l"
    by (simp add: offset_inv_def)
  moreover have "offset l \<le> offset (next_ch l)"
    by (auto simp: next_ch_def Let_def split: prod.splits)
  ultimately show ?thesis by simp
qed

lemma skip_blank_v1_steps: "steps l (snd (skip_blank_v1 l))"
proof -
  obtain r l1 where sb: "skip_space_v1 l = (r, l1)" by fastforce
  with skip_space_v1_steps [of l] have s1: "steps l l1" by simp
  show ?thesis
  proof (cases r)
    case (Some a)
    with sb s1 show ?thesis
      by (simp add: skip_blank_v1_def)
  next
    case None
    have "steps l1 (if ch l1 = rune_of CHR ''#'' then skip_comment (next_ch l1) else l1)"
      using skip_comment_steps [of "next_ch l1"]
      by (auto intro: steps.intros steps_from_next)
    with s1 sb None show ?thesis
      by (auto simp: skip_blank_v1_def intro: steps_trans)
  qed
qed

lemma prevOfs_in_source:
  assumes "lexer_state_v1 uk kw l" and "0 \<le> ch (token_start_v1 l)"
  shows "1 \<le> offset (next_ch (token_start_v1 l))"
    and "offset (next_ch (token_start_v1 l)) \<le> length (src l)"
proof -
  have s: "steps l (token_start_v1 l)"
    unfolding token_start_v1_def by (rule skip_blank_v1_steps)
  from offset_after_slash [OF s lexer_state_v1_offset [OF assms(1)] assms(2)]
  show "1 \<le> offset (next_ch (token_start_v1 l))" .
  from offset_inv_steps [OF steps_next [OF s] lexer_state_v1_offset [OF assms(1)]]
  show "offset (next_ch (token_start_v1 l)) \<le> length (src l)"
    using steps_fields [OF s] by (simp add: offset_inv_def)
qed

lemma load_progs_outcome: "load_progs w fs buf = Inl e \<Longrightarrow> e = Exit 1"
  by (induction fs arbitrary: buf) (auto simp: errorExit_def split: option.splits)

lemma set_vars_outcome: "set_vars vs = Inl e \<Longrightarrow> e = Exit 1"
  by (induction vs) (auto simp: errorExit_def split: if_splits sum.splits)

lemma load_source_outcome: "load_source w c = Inl e \<Longrightarrow> e = Exit 1"
  by (auto simp: load_source_def errorExit_def split: if_splits sum.splits
           dest: load_progs_outcome)

lemma Parse_no_arguments: "Parse flag_defaults [] = Inr flag_defaults"
  by (simp add: Parse.simps parseOne_def flag_defaults_def)

lemma run_no_program: "progFiles c = [] \<Longrightarrow> args c = [] \<Longrightarrow> run w c = Exit 1"
  by (simp add: run_def load_source_def errorExit_def)

lemma run_parse_error:
  assumes "load_source w c = Inr (s, args1)"
    and "ParseProgram w s = OtherError
      \<or> ParseProgram w s = ParseError p \<and> \<not> showSourceLine_panics s p"
  shows "run w c = Exit 1"
  using assms by (auto simp: run_def errorExit_def)

lemma run_parsed:
  assumes "load_source w c = Inr (s, args1)" and "ParseProgram w s = ParseOk"
  shows "set_vars (vars c) = Inl e \<Longrightarrow> run w c = Exit 1"
    and "set_vars (vars c) = Inr vs \<Longrightarrow>
           run w c =
             (if cpu_ok w c \<and> fst (Exec w s (fieldSep c) vs args1) \<and> mem_ok w c
              then Exit (snd (Exec w s (fieldSep c) vs args1)) else Exit 1)"
proof -
  show "run w c = Exit 1" if "set_vars (vars c) = Inl e"
    using assms that set_vars_outcome [OF that]
    by (simp add: run_def errorExit_def)
  show "run w c =
      (if cpu_ok w c \<and> fst (Exec w s (fieldSep c) vs args1) \<and> mem_ok w c
       then Exit (snd (Exec w s (fieldSep c) vs args1)) else Exit 1)"
    if "set_vars (vars c) = Inr vs"
    using assms that
    by (cases "Exec w s (fieldSep c) vs args1")
       (auto simp: run_def errorExit_def cpu_ok_def mem_ok_def)
qed

lemma run_outcomes:
  "run w c = Exit 1 \<or> run w c = Panic
     \<or> (\<exists>s vs as. fst (Exec w s (fieldSep c) vs as) \<and> run w c = Exit (snd (Exec w s (fieldSep c) vs as)))"
proof (cases "load_source w c")
  case (Inl e)
  then show ?thesis
    using load_source_outcome [of w c e] by (simp add: run_def)
next
  case (Inr sa)
  obtain s as where sa: "sa = (s, as)" by fastforce
  show ?thesis
  proof (cases "ParseProgram w s")
    case ParseOk
    show ?thesis
    proof (cases "set_vars (vars c)")
      case (Inl e)
      from run_parsed(1) [OF _ ParseOk this] Inr sa show ?thesis by simp
    next
      case vs: (Inr vs)
      from run_parsed(2) [OF _ ParseOk this] Inr sa
      have "run w c =
          (if cpu_ok w c \<and> fst (Exec w s (fieldSep c) vs as) \<and> mem_ok w c
           then Exit (snd (Exec w s (fieldSep c) vs as)) else Exit 1)"
        by simp
      then show ?thesis
        by (cases "cpu_ok w c \<and> fst (Exec w s (fieldSep c) vs as) \<and> mem_ok w c") auto
    qed
  next
    case (ParseError p)
    with Inr sa show ?thesis
      by (simp add: run_def errorExit_def)
  next
    case OtherError
    with Inr sa show ?thesis
      by (simp add: run_def errorExit_def)
  qed
qed

section \<open>The claims\<close>

subsection \<open>C1: \<open>Scan\<close> at a slash\<close>

text \<open>
  C1, as amended. The \<open>Scan\<close> of the later lexer never returns a \<open>REGEX\<close> token, from any
  lexer state; and when, after the blanks and the comment it skips, it stands at a
  \<open>'/'\<close>, it returns \<open>DIV_ASSIGN\<close> if the next character is \<open>'='\<close> and \<open>DIV\<close>
  otherwise, at the position of the slash and with the empty value. A \<open>REGEX\<close> token
  can so only come from \<open>ScanRegex\<close>. The \<open>Scan\<close> of the earlier lexer, which has no
  \<open>ScanRegex\<close>, does the same at a \<open>'/'\<close> only when its test \<open>looksLikeRegex\<close> finds
  no slash in the rest of the line; when the test finds one it scans a regex itself: it
  returns \<open>REGEX\<close> or \<open>ILLEGAL\<close>, and the \<open>REGEX\<close> at the position of the opening
  slash when the regex is closed.
\<close>

theorem Scan_slash_never_REGEX:
  "tok_of (Scan l) \<noteq> REGEX \<and>
   (fst (skip_blank l) = None \<and> ch (snd (skip_blank l)) = rune_of CHR ''/'' \<longrightarrow>
      fst (Scan l) =
        (pos (snd (skip_blank l)),
         if ch (next_ch (snd (skip_blank l))) = rune_of CHR ''='' then DIV_ASSIGN else DIV,
         Str [])) \<and>
   (fst (skip_blank_v1 l) = None \<and> ch (token_start_v1 l) = rune_of CHR ''/'' \<longrightarrow>
      (\<not> looksLikeRegex (next_ch (token_start_v1 l)) \<longrightarrow>
         fst (Scan_v1 uk kw l) =
           (pos (token_start_v1 l),
            if ch (next_ch (token_start_v1 l)) = rune_of CHR ''='' then DIV_ASSIGN else DIV,
            Str []))
    \<and> (looksLikeRegex (next_ch (token_start_v1 l)) \<longrightarrow>
         tok_of (Scan_v1 uk kw l) = REGEX \<or> tok_of (Scan_v1 uk kw l) = ILLEGAL)
    \<and> (looksLikeRegex (next_ch (token_start_v1 l)) \<and> list_all regex_item_ok items
         \<and> upcoming (next_ch (token_start_v1 l)) = source_text items @ rune_of CHR ''/'' # rest \<longrightarrow>
         fst (Scan_v1 uk kw l) = (pos (token_start_v1 l), REGEX, Str (regex_text items))
         \<and> upcoming (snd (Scan_v1 uk kw l)) = rest))"
proof (intro conjI impI)
  show "tok_of (Scan l) \<noteq> REGEX"
    using scan_not_REGEX [of l] by (simp add: tok_of_Scan)
next
  assume a: "fst (skip_blank l) = None \<and> ch (snd (skip_blank l)) = rune_of CHR ''/''"
  then have "skip_blank l = (None, snd (skip_blank l))"
    by (cases "skip_blank l") simp
  then have "scan l = scan_token (snd (skip_blank l))"
    by (rule scan_None)
  with a show "fst (Scan l) =
      (pos (snd (skip_blank l)),
       if ch (next_ch (snd (skip_blank l))) = rune_of CHR ''='' then DIV_ASSIGN else DIV,
       Str [])"
    by (simp add: Scan_fst scan_token_slash)
next
  assume a: "fst (skip_blank_v1 l) = None \<and> ch (token_start_v1 l) = rune_of CHR ''/''"
  then have s: "Scan_v1 uk kw l =
      (if looksLikeRegex (next_ch (token_start_v1 l))
       then regex_rest (pos (token_start_v1 l)) (next_ch (token_start_v1 l)) []
       else if ch (next_ch (token_start_v1 l)) = rune_of CHR ''=''
         then ((pos (token_start_v1 l), DIV_ASSIGN, Str []), next_ch (next_ch (token_start_v1 l)))
       else ((pos (token_start_v1 l), DIV, Str []), next_ch (token_start_v1 l)))"
    using Scan_v1_token_start [of l uk kw] scan_token_v1_slash [of "token_start_v1 l" uk kw]
    by simp
  show "fst (Scan_v1 uk kw l) =
      (pos (token_start_v1 l),
       if ch (next_ch (token_start_v1 l)) = rune_of CHR ''='' then DIV_ASSIGN else DIV,
       Str [])"
    if "\<not> looksLikeRegex (next_ch (token_start_v1 l))"
    using that s by simp
  show "tok_of (Scan_v1 uk kw l) = REGEX \<or> tok_of (Scan_v1 uk kw l) = ILLEGAL"
    if "looksLikeRegex (next_ch (token_start_v1 l))"
    using that s regex_rest_tok [of "pos (token_start_v1 l)" "next_ch (token_start_v1 l)" "[]"]
    by simp
  assume b: "looksLikeRegex (next_ch (token_start_v1 l)) \<and> list_all regex_item_ok items
      \<and> upcoming (next_ch (token_start_v1 l)) = source_text items @ rune_of CHR ''/'' # rest"
  then have ok: "list_all regex_item_ok items"
    and u: "upcoming (next_ch (token_start_v1 l)) = source_text items @ rune_of CHR ''/'' # rest"
    by simp_all
  from regex_rest_closed [OF ok u, of "pos (token_start_v1 l)" "[]"] b s
  show "fst (Scan_v1 uk kw l) = (pos (token_start_v1 l), REGEX, Str (regex_text items))"
    and "upcoming (snd (Scan_v1 uk kw l)) = rest"
    by simp_all
qed

text \<open>
  The later lexer on the source \<open>  /= 2\<close>; the earlier one on the source \<open>/ 2\<close>, with
  no other slash, and on the source \<open>/ab/ x\<close>.
\<close>

theorem Scan_slash_never_REGEX_witness:
  "tok_of (Scan (NewLexer ILLEGAL (bytes_of ''  /= 2''))) \<noteq> REGEX \<and>
   fst (skip_blank (NewLexer ILLEGAL (bytes_of ''  /= 2''))) = None \<and>
   ch (snd (skip_blank (NewLexer ILLEGAL (bytes_of ''  /= 2'')))) = rune_of CHR ''/'' \<and>
   fst (Scan (NewLexer ILLEGAL (bytes_of ''  /= 2''))) = (\<lparr>Line = 1, Column = 3\<rparr>, DIV_ASSIGN, Str []) \<and>
   \<not> looksLikeRegex (next_ch (token_start_v1 (NewLexer_v1 (bytes_of ''/ 2'')))) \<and>
   fst (Scan_v1 (\<lambda>name. False) keywordTokens (NewLexer_v1 (bytes_of ''/ 2''))) =
     (\<lparr>Line = 1, Column = 1\<rparr>, DIV, Str []) \<and>
   looksLikeRegex (next_ch (token_start_v1 (NewLexer_v1 (bytes_of ''/ab/ x'')))) \<and>
   fst (Scan_v1 (\<lambda>name. False) keywordTokens (NewLexer_v1 (bytes_of ''/ab/ x''))) =
     (\<lparr>Line = 1, Column = 1\<rparr>, REGEX, Str (map rune_of ''ab'')) \<and>
   upcoming (snd (Scan_v1 (\<lambda>name. False) keywordTokens (NewLexer_v1 (bytes_of ''/ab/ x''))))
     = map rune_of '' x''"
proof -
  define A where "A = NewLexer ILLEGAL (bytes_of ''  /= 2'')"
  define B where "B = NewLexer_v1 (bytes_of ''/ 2'')"
  define C where "C = NewLexer_v1 (bytes_of ''/ab/ x'')"
  define items where "items = [Plain (rune_of CHR ''a''), Plain (rune_of CHR ''b'')]"
  have a: "fst (skip_blank A) = None"
    unfolding A_def by code_simp
  have b: "ch (snd (skip_blank A)) = rune_of CHR ''/''"
    unfolding A_def by code_simp
  have c: "pos (snd (skip_blank A)) = \<lparr>Line = 1, Column = 3\<rparr>"
    unfolding A_def by code_simp
  have d: "ch (next_ch (snd (skip_blank A))) = rune_of CHR ''=''"
    unfolding A_def by code_simp
  have e1: "fst (skip_blank_v1 B) = None \<and> ch (token_start_v1 B) = rune_of CHR ''/''"
    unfolding B_def by code_simp
  have e2: "\<not> looksLikeRegex (next_ch (token_start_v1 B))"
    unfolding B_def by code_simp
  have e3: "pos (token_start_v1 B) = \<lparr>Line = 1, Column = 1\<rparr>
      \<and> ch (next_ch (token_start_v1 B)) \<noteq> rune_of CHR ''=''"
    unfolding B_def by code_simp
  have f1: "fst (skip_blank_v1 C) = None \<and> ch (token_start_v1 C) = rune_of CHR ''/''"
    unfolding C_def by code_simp
  have f2: "looksLikeRegex (next_ch (token_start_v1 C))"
    unfolding C_def by code_simp
  have f3: "pos (token_start_v1 C) = \<lparr>Line = 1, Column = 1\<rparr>"
    unfolding C_def by code_simp
  have f4: "list_all regex_item_ok items"
    unfolding items_def by simp
  have f5: "upcoming (next_ch (token_start_v1 C)) =
      source_text items @ rune_of CHR ''/'' # map rune_of '' x''"
    unfolding C_def items_def by code_simp
  from Scan_slash_never_REGEX [of A] a b c d
  have r1: "tok_of (Scan A) \<noteq> REGEX"
    and r2: "fst (Scan A) = (\<lparr>Line = 1, Column = 3\<rparr>, DIV_ASSIGN, Str [])"
    by simp_all
  from Scan_slash_never_REGEX [of B "\<lambda>name. False" keywordTokens] e1 e2 e3
  have r3: "fst (Scan_v1 (\<lambda>name. False) keywordTokens B) = (\<lparr>Line = 1, Column = 1\<rparr>, DIV, Str [])"
    by simp
  from Scan_slash_never_REGEX [of C "\<lambda>name. False" keywordTokens items "map rune_of '' x''"]
    f1 f2 f3 f4 f5
  have r4: "fst (Scan_v1 (\<lambda>name. False) keywordTokens C) =
      (\<lparr>Line = 1, Column = 1\<rparr>, REGEX, Str (map rune_of ''ab''))"
    and r5: "upcoming (snd (Scan_v1 (\<lambda>name. False) keywordTokens C)) = map rune_of '' x''"
    by (simp_all add: items_def)
  show ?thesis
    using r1 a b r2 e2 r3 f2 r4 r5 unfolding A_def B_def C_def by simp
qed

text \<open>
  The claim as stated fails for the \<open>Scan\<close> of the earlier lexer: on the source \<open>/ab/\<close> it
  returns a \<open>REGEX\<close> token on its own.
\<close>

theorem Scan_slash_never_REGEX_counterexample:
  "fst (Scan_v1 (\<lambda>name. False) keywordTokens (NewLexer_v1 (bytes_of ''/ab/''))) =
     (\<lparr>Line = 1, Column = 1\<rparr>, REGEX, Str (map rune_of ''ab''))"
  by code_simp

subsection \<open>C2: exit status\<close>

text \<open>
  C2, as amended. \<open>main\<close> ends with \<open>os.Exit(2)\<close> when \<open>flag.Parse\<close> rejects the
  command line. With the flags parsed, it ends with \<open>os.Exit(1)\<close> when there is neither a
  \<open>-f\<close> file nor an argument (the usage error; so for the command without any
  argument), when a program file is not read, when \<open>ParseProgram\<close> returns an error (and
  printing the source line does not panic), when a \<open>-v\<close> has no \<open>=\<close>, when a profile
  that is asked for is not created or written, and when \<open>Exec\<close> returns an error; and
  when the program is read, parsed and run without any of these errors it ends with
  \<open>os.Exit\<close> of the \<open>ExitStatus\<close> of the interpreter. It ends in no other way, but
  for the help flag and for a panic in printing the source line.
\<close>

theorem main_exit_status:
  "(Parse flag_defaults argv = Inl BadFlag \<longrightarrow> main w argv = Exit 2)
   \<and> main w [] = Exit 1
   \<and> (Parse flag_defaults argv = Inr c \<longrightarrow>
        (progFiles c = [] \<and> args c = [] \<longrightarrow> main w argv = Exit 1)
      \<and> (load_source w c = Inl e \<longrightarrow> main w argv = Exit 1)
      \<and> (load_source w c = Inr (s, args1) \<longrightarrow>
           (ParseProgram w s = OtherError
              \<or> ParseProgram w s = ParseError p \<and> \<not> showSourceLine_panics s p \<longrightarrow>
            main w argv = Exit 1)
         \<and> (ParseProgram w s = ParseOk \<and> set_vars (vars c) = Inl e \<longrightarrow> main w argv = Exit 1)
         \<and> (ParseProgram w s = ParseOk \<and> set_vars (vars c) = Inr vs \<longrightarrow>
            main w argv =
              (if cpu_ok w c \<and> fst (Exec w s (fieldSep c) vs args1) \<and> mem_ok w c
               then Exit (snd (Exec w s (fieldSep c) vs args1)) else Exit 1))))
   \<and> (Parse flag_defaults argv = Inl BadFlag \<and> main w argv = Exit 2
        \<or> Parse flag_defaults argv = Inl HelpFlag \<and> main w argv = Exit (helpStatus w)
        \<or> main w argv = Exit 1 \<or> main w argv = Panic
        \<or> (\<exists>c1 s1 vs1 as1. Parse flag_defaults argv = Inr c1
              \<and> fst (Exec w s1 (fieldSep c1) vs1 as1)
              \<and> main w argv = Exit (snd (Exec w s1 (fieldSep c1) vs1 as1))))"
proof (intro conjI impI)
  assume "Parse flag_defaults argv = Inl BadFlag"
  then show "main w argv = Exit 2"
    by (simp add: main_def)
next
  have "run w flag_defaults = Exit 1"
    by (rule run_no_program) (simp_all add: flag_defaults_def)
  then show "main w [] = Exit 1"
    by (simp add: main_def Parse_no_arguments)
next
  assume p: "Parse flag_defaults argv = Inr c"
  then have m: "main w argv = run w c"
    by (simp add: main_def)
  show "main w argv = Exit 1" if "progFiles c = [] \<and> args c = []"
    using that m by (simp add: run_no_program)
  show "main w argv = Exit 1" if "load_source w c = Inl e"
    using that m load_source_outcome [OF that] by (simp add: run_def)
  assume l: "load_source w c = Inr (s, args1)"
  show "main w argv = Exit 1"
    if "ParseProgram w s = OtherError
      \<or> ParseProgram w s = ParseError p \<and> \<not> showSourceLine_panics s p"
    using run_parse_error [OF l that] m by simp
  show "main w argv = Exit 1" if "ParseProgram w s = ParseOk \<and> set_vars (vars c) = Inl e"
    using run_parsed(1) [OF l, of e] that m by simp
  show "main w argv =
      (if cpu_ok w c \<and> fst (Exec w s (fieldSep c) vs args1) \<and> mem_ok w c
       then Exit (snd (Exec w s (fieldSep c) vs args1)) else Exit 1)"
    if "ParseProgram w s = ParseOk \<and> set_vars (vars c) = Inr vs"
    using run_parsed(2) [OF l, of vs] that m by simp
next
  show "Parse flag_defaults argv = Inl BadFlag \<and> main w argv = Exit 2
      \<or> Parse flag_defaults argv = Inl HelpFlag \<and> main w argv = Exit (helpStatus w)
      \<or> main w argv = Exit 1 \<or> main w argv = Panic
      \<or> (\<exists>c1 s1 vs1 as1. Parse flag_defaults argv = Inr c1
            \<and> fst (Exec w s1 (fieldSep c1) vs1 as1)
            \<and> main w argv = Exit (snd (Exec w s1 (fieldSep c1) vs1 as1)))"
  proof (cases "Parse flag_defaults argv")
    case (Inl f)
    then show ?thesis
      by (cases f) (simp_all add: main_def)
  next
    case (Inr c1)
    then have "main w argv = run w c1"
      by (simp add: main_def)
    with run_outcomes [of w c1] Inr show ?thesis
      by auto
  qed
qed

text \<open>
  The command \<open>goawk -f\<close>, whose flag has no value; the program \<open>1 +\<close>, which does not
  parse; a program that exits with the status 7, run with a variable and an input file;
  and the same program with a memory profile that cannot be created.
\<close>

theorem main_exit_status_witness:
  "Parse flag_defaults [''-f''] = Inl BadFlag \<and>
   main quiet_world [''-f''] = Exit 2 \<and>
   main (quiet_world\<lparr>ParseProgram := (\<lambda>s. ParseError \<lparr>Line = 1, Column = 4\<rparr>)\<rparr>) [''1 +'']
     = Exit 1 \<and>
   main (quiet_world\<lparr>Exec := (\<lambda>s fs vs as. (True, 7))\<rparr>)
     [''-v'', ''n=1'', ''BEGIN { exit 7 }'', ''file''] = Exit 7 \<and>
   main (quiet_world\<lparr>createFile := (\<lambda>f. False), Exec := (\<lambda>s fs vs as. (True, 7))\<rparr>)
     [''-memprofile'', ''m.prof'', ''BEGIN { exit 7 }''] = Exit 1"
proof -
  define w2 where "w2 = quiet_world\<lparr>ParseProgram := (\<lambda>s. ParseError \<lparr>Line = 1, Column = 4\<rparr>)\<rparr>"
  define c2 where "c2 = flag_defaults\<lparr>args := [''1 +'']\<rparr>"
  define w3 where "w3 = quiet_world\<lparr>Exec := (\<lambda>s fs vs as. (True, 7))\<rparr>"
  define c3 where "c3 = flag_defaults\<lparr>vars := [''n=1''], args := [''BEGIN { exit 7 }'', ''file'']\<rparr>"
  define w4 where
    "w4 = quiet_world\<lparr>createFile := (\<lambda>f. False), Exec := (\<lambda>s fs vs as. (True, 7))\<rparr>"
  define c4 where "c4 = flag_defaults\<lparr>memprofile := ''m.prof'', args := [''BEGIN { exit 7 }'']\<rparr>"
  have a: "Parse flag_defaults [''-f''] = Inl BadFlag"
    by code_simp
  have b0: "Parse flag_defaults [''1 +''] = Inr c2"
    unfolding c2_def by code_simp
  have b1: "load_source w2 c2 = Inr (''1 +'', [])"
    by (simp add: load_source_def c2_def flag_defaults_def)
  have b2: "ParseProgram w2 ''1 +'' = ParseError \<lparr>Line = 1, Column = 4\<rparr>"
    by (simp add: w2_def)
  have b3: "\<not> showSourceLine_panics ''1 +'' \<lparr>Line = 1, Column = 4\<rparr>"
    by (simp add: showSourceLine_panics_def)
  have d0: "Parse flag_defaults [''-v'', ''n=1'', ''BEGIN { exit 7 }'', ''file''] = Inr c3"
    unfolding c3_def by code_simp
  have d1: "load_source w3 c3 = Inr (''BEGIN { exit 7 }'', [''file''])"
    by (simp add: load_source_def c3_def flag_defaults_def)
  have d2: "ParseProgram w3 ''BEGIN { exit 7 }'' = ParseOk
      \<and> set_vars (vars c3) = Inr [(''n'', ''1'')]"
    by (simp add: w3_def quiet_world_def c3_def flag_defaults_def)
  have d3: "cpu_ok w3 c3 \<and> mem_ok w3 c3
      \<and> Exec w3 ''BEGIN { exit 7 }'' (fieldSep c3) [(''n'', ''1'')] [''file''] = (True, 7)"
    by (simp add: w3_def c3_def flag_defaults_def cpu_ok_def mem_ok_def)
  have e0: "Parse flag_defaults [''-memprofile'', ''m.prof'', ''BEGIN { exit 7 }''] = Inr c4"
    unfolding c4_def by code_simp
  have e1: "load_source w4 c4 = Inr (''BEGIN { exit 7 }'', [])"
    by (simp add: load_source_def c4_def flag_defaults_def)
  have e2: "ParseProgram w4 ''BEGIN { exit 7 }'' = ParseOk \<and> set_vars (vars c4) = Inr []"
    by (simp add: w4_def quiet_world_def c4_def flag_defaults_def)
  have e3: "\<not> mem_ok w4 c4"
    by (simp add: w4_def c4_def flag_defaults_def mem_ok_def)
  from main_exit_status [of "[''-f'']" quiet_world] a
  have r1: "main quiet_world [''-f''] = Exit 2"
    by blast
  from main_exit_status [of "[''1 +'']" w2 c2 _ "''1 +''" "[]" "\<lparr>Line = 1, Column = 4\<rparr>"]
    b0 b1 b2 b3
  have r2: "main w2 [''1 +''] = Exit 1"
    by blast
  from main_exit_status [of "[''-v'', ''n=1'', ''BEGIN { exit 7 }'', ''file'']" w3 c3 _
      "''BEGIN { exit 7 }''" "[''file'']" _ "[(''n'', ''1'')]"] d0 d1 d2 d3
  have r3: "main w3 [''-v'', ''n=1'', ''BEGIN { exit 7 }'', ''file''] = Exit 7"
    by simp
  from main_exit_status [of "[''-memprofile'', ''m.prof'', ''BEGIN { exit 7 }'']" w4 c4 _
      "''BEGIN { exit 7 }''" "[]" _ "[]"] e0 e1 e2 e3
  have r4: "main w4 [''-memprofile'', ''m.prof'', ''BEGIN { exit 7 }''] = Exit 1"
    by simp
  show ?thesis
    using a r1 r2 r3 r4 unfolding w2_def w3_def w4_def by simp
qed

text \<open>
  The claim as stated fails for the usage error: the command without a program and
  without any argument passes \<open>flag.Parse\<close>, \<open>main\<close> calls \<open>errorExit\<close>, and the status
  is 1, not 2.
\<close>

theorem main_exit_status_counterexample:
  "Parse flag_defaults [] = Inr flag_defaults \<and>
   progFiles flag_defaults = [] \<and> args flag_defaults = [] \<and>
   main quiet_world [] = Exit 1 \<and> main quiet_world [] \<noteq> Exit 2"
proof -
  have "run quiet_world flag_defaults = Exit 1"
    by (simp add: run_def load_source_def errorExit_def flag_defaults_def)
  then show ?thesis
    by (simp add: main_def Parse_no_arguments) (simp add: flag_defaults_def)
qed

subsection \<open>C3: \<open>ScanRegex\<close>\<close>




subsection \<open>C4: escapes and newlines in a regex\<close>




subsection \<open>C5: double-quoted strings\<close>




subsection \<open>C6: numbers\<close>



subsection \<open>C7: \<open>HadSpace\<close>\<close>

text \<open>
  C7. After a call to \<open>Scan\<close>, \<open>HadSpace\<close> is true if and only if the character at
  which the call started is a space, a tab, a carriage return or a backslash: \<open>scan\<close>
  sets the flag on entering the body of its loop. Unless the call starts at a backslash
  that begins no line continuation, this is what the claim says: \<open>HadSpace\<close> is true
  if and only if a space, a tab, a carriage return or a line continuation stands before
  the token. At such a backslash the code sets the flag before it looks for the
  newline, and returns \<open>ILLEGAL\<close> with \<open>HadSpace\<close> true though no white space
  precedes: so on the source of the two characters backslash and \<open>x\<close>.
\<close>

theorem HadSpace_after_Scan:
  "(HadSpace (snd (Scan l)) \<longleftrightarrow> is_blank (ch l))
   \<and> ((ch l = rune_of CHR 0x5C \<longrightarrow> line_continuation (upcoming l)) \<longrightarrow>
        (HadSpace (snd (Scan l)) \<longleftrightarrow> blank_before (upcoming l)))
   \<and> HadSpace (snd (Scan (NewLexer ILLEGAL [0x5C, 0x78])))
   \<and> \<not> blank_before (upcoming (NewLexer ILLEGAL [0x5C, 0x78]))
   \<and> fst (Scan (NewLexer ILLEGAL [0x5C, 0x78])) =
        (\<lparr>Line = 1, Column = 2\<rparr>, ILLEGAL,
         lit (''expected '' @ [CHR 0x5C] @ ''n after '' @ [CHR 0x5C] @ '' line continuation''))"
proof (intro conjI impI)
  show h: "HadSpace (snd (Scan l)) \<longleftrightarrow> is_blank (ch l)"
    by (simp add: HadSpace_def Scan_snd scan_hadSpace)
  show "HadSpace (snd (Scan l)) \<longleftrightarrow> blank_before (upcoming l)"
    if "ch l = rune_of CHR 0x5C \<longrightarrow> line_continuation (upcoming l)"
    using h blank_before_is_blank [OF that] by simp
  show "HadSpace (snd (Scan (NewLexer ILLEGAL [0x5C, 0x78])))"
    by code_simp
  show "\<not> blank_before (upcoming (NewLexer ILLEGAL [0x5C, 0x78]))"
    by code_simp
  show "fst (Scan (NewLexer ILLEGAL [0x5C, 0x78])) =
      (\<lparr>Line = 1, Column = 2\<rparr>, ILLEGAL,
       lit (''expected '' @ [CHR 0x5C] @ ''n after '' @ [CHR 0x5C] @ '' line continuation''))"
    by code_simp
qed

text \<open>
  The second token of the source \<open>f (x)\<close>, after a space; the second token of \<open>f(x)\<close>,
  after none; and the token after the line continuation of the source backslash,
  newline, \<open>x\<close>.
\<close>

theorem HadSpace_after_Scan_witness:
  "upcoming (snd (Scan (NewLexer ILLEGAL (bytes_of ''f (x)'')))) = map rune_of '' (x)'' \<and>
   HadSpace (snd (Scan (snd (Scan (NewLexer ILLEGAL (bytes_of ''f (x)'')))))) \<and>
   upcoming (snd (Scan (NewLexer ILLEGAL (bytes_of ''f(x)'')))) = map rune_of ''(x)'' \<and>
   \<not> HadSpace (snd (Scan (snd (Scan (NewLexer ILLEGAL (bytes_of ''f(x)'')))))) \<and>
   line_continuation (upcoming (NewLexer ILLEGAL [0x5C, 0x0A, 0x78])) \<and>
   HadSpace (snd (Scan (NewLexer ILLEGAL [0x5C, 0x0A, 0x78]))) \<and>
   tok_of (Scan (NewLexer ILLEGAL [0x5C, 0x0A, 0x78])) = NAME"
proof -
  define A where "A = snd (Scan (NewLexer ILLEGAL (bytes_of ''f (x)'')))"
  define B where "B = snd (Scan (NewLexer ILLEGAL (bytes_of ''f(x)'')))"
  define C where "C = NewLexer ILLEGAL [0x5C, 0x0A, 0x78]"
  have a1: "upcoming A = map rune_of '' (x)''"
    unfolding A_def by code_simp
  have a2: "ch A = rune_of CHR '' ''"
    unfolding A_def by code_simp
  have b1: "upcoming B = map rune_of ''(x)''"
    unfolding B_def by code_simp
  have b2: "ch B = rune_of CHR ''(''"
    unfolding B_def by code_simp
  have c1: "line_continuation (upcoming C)"
    unfolding C_def by code_simp
  have c2: "tok_of (Scan C) = NAME"
    unfolding C_def by code_simp
  from HadSpace_after_Scan [of A] a1 a2
  have r1: "HadSpace (snd (Scan A))"
    by (simp add: blank_before_def is_blank_def)
  from HadSpace_after_Scan [of B] b1 b2
  have r2: "\<not> HadSpace (snd (Scan B))"
    by (simp add: blank_before_def line_continuation_def is_blank_def)
  have c3: "blank_before (upcoming C)"
    using c1 by (simp add: blank_before_def)
  from HadSpace_after_Scan [of C] c1 c3
  have r3: "HadSpace (snd (Scan C))"
    by blast
  show ?thesis
    using a1 r1 b1 r2 c1 r3 c2 unfolding A_def B_def C_def by simp
qed

subsection \<open>C8: lexical errors\<close>

text \<open>
  C8, as amended. A lexical error is reported as an \<open>ILLEGAL\<close> token with a message and
  a position. \<open>Scan\<close> reports: a string that no quote closes before the end of the
  source, or before a carriage return or a newline that no backslash escapes; a byte
  that does not decode, when it is reached in a lexer in use; an \<open>&\<close> that no \<open>&\<close>
  follows; and a character that starts no token. An unterminated regex is reported by
  \<open>ScanRegex\<close>, called after \<open>DIV\<close> or \<open>DIV_ASSIGN\<close>. And on a source with an invalid
  UTF-8 byte, calling \<open>Scan\<close> on a new lexer until the token is \<open>EOF\<close> or \<open>ILLEGAL\<close>
  ends with \<open>ILLEGAL\<close>, after at most as many calls as the source has bytes and one
  more, and no token is \<open>EOF\<close>.
\<close>

theorem lexical_errors:
  "(fst (skip_blank l) = None
      \<and> (q = rune_of CHR 0x22 \<or> q = rune_of CHR 0x27) \<and> list_all (string_item_ok q) items
      \<and> upcoming (token_start l) = q # source_text items @ stop \<longrightarrow>
        (stop = [] \<or> stop = [rune_of CHR 0x5C] \<longrightarrow>
           fst (Scan l) = (pos (snd (Scan l)), ILLEGAL, lit ''didn't find end quote in string''))
      \<and> (line_end stop \<longrightarrow>
           fst (Scan l) = (pos (snd (Scan l)), ILLEGAL, lit ''can't have newline in string'')))
   \<and> ((lastTok l = DIV \<or> lastTok l = DIV_ASSIGN) \<and> list_all regex_item_ok items
        \<and> upcoming l = source_text items @ stop \<longrightarrow>
        (stop = [] \<or> stop = [rune_of CHR 0x5C] \<longrightarrow>
           fst (ScanRegex l) =
             (pos (snd (ScanRegex l)), ILLEGAL, lit ''didn't find end slash in regex''))
      \<and> (line_end stop \<longrightarrow>
           fst (ScanRegex l) =
             (pos (snd (ScanRegex l)), ILLEGAL, lit ''can't have newline in regex'')))
   \<and> (lexer_state tok0 l \<and> fst (skip_blank l) = None
        \<and> ch (token_start l) < 0 \<and> offset (token_start l) < length (src l) \<longrightarrow>
        fst (Scan l) =
          (pos (token_start l), ILLEGAL,
           Sprintf ''invalid UTF-8 byte 0x%02x'' [ArgByte (src l ! offset (token_start l))]))
   \<and> (fst (skip_blank l) = None \<and> ch (token_start l) = rune_of CHR ''&''
        \<and> ch (next_ch (token_start l)) \<noteq> rune_of CHR ''&'' \<longrightarrow>
        fst (Scan l) =
          (pos (next_ch (token_start l)), ILLEGAL,
           Sprintf (''unexpected %q after '' @ [CHR 0x27, CHR ''&'', CHR 0x27])
             [ArgRune (ch (next_ch (token_start l)))]))
   \<and> (fst (skip_blank l) = None \<and> 0 \<le> ch (token_start l)
        \<and> \<not> token_char (ch (token_start l)) \<longrightarrow>
        fst (Scan l) =
          (pos (token_start l), ILLEGAL, Sprintf ''unexpected %q'' [ArgRune (ch (token_start l))]))
   \<and> (has_invalid s \<longrightarrow>
        (\<exists>rs. scan_all (Suc (length s)) (NewLexer tok0 s) = Some rs \<and> rs \<noteq> []
           \<and> fst (snd (last rs)) = ILLEGAL \<and> list_all (\<lambda>r. fst (snd r) \<noteq> EOF) rs))"
proof (intro conjI impI)
  assume a: "fst (skip_blank l) = None
      \<and> (q = rune_of CHR 0x22 \<or> q = rune_of CHR 0x27) \<and> list_all (string_item_ok q) items
      \<and> upcoming (token_start l) = q # source_text items @ stop"
  show "fst (Scan l) = (pos (snd (Scan l)), ILLEGAL, lit ''didn't find end quote in string'')"
    if "stop = [] \<or> stop = [rune_of CHR 0x5C]"
    using a that by (intro Scan_string(2) [of l q items stop]) simp_all
  show "fst (Scan l) = (pos (snd (Scan l)), ILLEGAL, lit ''can't have newline in string'')"
    if "line_end stop"
    using a that by (intro Scan_string(3) [of l q items stop]) simp_all
next
  assume a: "(lastTok l = DIV \<or> lastTok l = DIV_ASSIGN) \<and> list_all regex_item_ok items
      \<and> upcoming l = source_text items @ stop"
  show "fst (ScanRegex l) =
      (pos (snd (ScanRegex l)), ILLEGAL, lit ''didn't find end slash in regex'')"
    if "stop = [] \<or> stop = [rune_of CHR 0x5C]"
    using a that by (intro ScanRegex_open(1) [of l items stop]) simp_all
  show "fst (ScanRegex l) =
      (pos (snd (ScanRegex l)), ILLEGAL, lit ''can't have newline in regex'')"
    if "line_end stop"
    using a that by (intro ScanRegex_open(2) [of l items stop]) simp_all
next
  assume "lexer_state tok0 l \<and> fst (skip_blank l) = None
      \<and> ch (token_start l) < 0 \<and> offset (token_start l) < length (src l)"
  then show "fst (Scan l) =
      (pos (token_start l), ILLEGAL,
       Sprintf ''invalid UTF-8 byte 0x%02x'' [ArgByte (src l ! offset (token_start l))])"
    by (intro Scan_invalid_byte [of tok0 l]) simp_all
next
  assume a: "fst (skip_blank l) = None \<and> ch (token_start l) = rune_of CHR ''&''
      \<and> ch (next_ch (token_start l)) \<noteq> rune_of CHR ''&''"
  then have "scan_token (token_start l) =
      scan_switch (pos (token_start l)) (ch (token_start l)) (next_ch (token_start l))"
    by (simp add: scan_token_def Let_def isNameStart_def)
  with a show "fst (Scan l) =
      (pos (next_ch (token_start l)), ILLEGAL,
       Sprintf (''unexpected %q after '' @ [CHR 0x27, CHR ''&'', CHR 0x27])
         [ArgRune (ch (next_ch (token_start l)))])"
    using scan_switch_amp [of "ch (token_start l)" "next_ch (token_start l)" "pos (token_start l)"]
    by (simp add: Scan_fst Scan_at_token)
next
  assume a: "fst (skip_blank l) = None \<and> 0 \<le> ch (token_start l)
      \<and> \<not> token_char (ch (token_start l))"
  then have "scan_token (token_start l) =
      scan_switch (pos (token_start l)) (ch (token_start l)) (next_ch (token_start l))"
    by (simp add: scan_token_def Let_def token_char_def)
  with a show "fst (Scan l) =
      (pos (token_start l), ILLEGAL, Sprintf ''unexpected %q'' [ArgRune (ch (token_start l))])"
    using scan_switch_other [of "ch (token_start l)" "pos (token_start l)" "next_ch (token_start l)"]
    by (simp add: Scan_fst Scan_at_token)
next
  assume "has_invalid s"
  then show "\<exists>rs. scan_all (Suc (length s)) (NewLexer tok0 s) = Some rs \<and> rs \<noteq> []
      \<and> fst (snd (last rs)) = ILLEGAL \<and> list_all (\<lambda>r. fst (snd r) \<noteq> EOF) rs"
    by (rule Scan_invalid_source)
qed

text \<open>
  The six cases: the source \<open>"ab\<close>; the source \<open>/ab\<close> after its \<open>DIV\<close>; the source
  of \<open>a\<close>, a space and the byte 0xFF, after its name and as a whole; the source \<open>& b\<close>;
  and the source \<open>@\<close>.
\<close>

theorem lexical_errors_witness:
  "fst (Scan (NewLexer ILLEGAL (bytes_of ([CHR 0x22] @ ''ab'')))) =
     (\<lparr>Line = 1, Column = 4\<rparr>, ILLEGAL, lit ''didn't find end quote in string'') \<and>
   lastTok (snd (Scan (NewLexer ILLEGAL (bytes_of ''/ab'')))) = DIV \<and>
   fst (ScanRegex (snd (Scan (NewLexer ILLEGAL (bytes_of ''/ab''))))) =
     (\<lparr>Line = 1, Column = 4\<rparr>, ILLEGAL, lit ''didn't find end slash in regex'') \<and>
   lexer_state ILLEGAL (snd (Scan (NewLexer ILLEGAL [0x61, 0x20, 0xFF]))) \<and>
   fst (Scan (snd (Scan (NewLexer ILLEGAL [0x61, 0x20, 0xFF])))) =
     (\<lparr>Line = 1, Column = 3\<rparr>, ILLEGAL, Sprintf ''invalid UTF-8 byte 0x%02x'' [ArgByte 0xFF]) \<and>
   fst (Scan (NewLexer ILLEGAL (bytes_of ''& b''))) =
     (\<lparr>Line = 1, Column = 2\<rparr>, ILLEGAL,
      Sprintf (''unexpected %q after '' @ [CHR 0x27, CHR ''&'', CHR 0x27])
        [ArgRune (rune_of CHR '' '')]) \<and>
   fst (Scan (NewLexer ILLEGAL (bytes_of ''@''))) =
     (\<lparr>Line = 1, Column = 1\<rparr>, ILLEGAL, Sprintf ''unexpected %q'' [ArgRune (rune_of CHR ''@'')]) \<and>
   has_invalid [0x61, 0x20, 0xFF] \<and>
   (\<exists>rs. scan_all 4 (NewLexer ILLEGAL [0x61, 0x20, 0xFF]) = Some rs \<and> rs \<noteq> []
      \<and> fst (snd (last rs)) = ILLEGAL \<and> list_all (\<lambda>r. fst (snd r) \<noteq> EOF) rs)"
proof -
  define L1 where "L1 = NewLexer ILLEGAL (bytes_of ([CHR 0x22] @ ''ab''))"
  define L2 where "L2 = snd (Scan (NewLexer ILLEGAL (bytes_of ''/ab'')))"
  define L3 where "L3 = snd (Scan (NewLexer ILLEGAL [0x61, 0x20, 0xFF]))"
  define L4 where "L4 = NewLexer ILLEGAL (bytes_of ''& b'')"
  define L5 where "L5 = NewLexer ILLEGAL (bytes_of ''@'')"
  define ab where "ab = [Plain (rune_of CHR ''a''), Plain (rune_of CHR ''b'')]"
  have a1: "fst (skip_blank L1) = None"
    unfolding L1_def by code_simp
  have a2: "list_all (string_item_ok (rune_of CHR 0x22)) ab"
    unfolding ab_def by simp
  have a3: "upcoming (token_start L1) = rune_of CHR 0x22 # source_text ab @ []"
    unfolding L1_def ab_def by code_simp
  have a4: "pos (snd (Scan L1)) = \<lparr>Line = 1, Column = 4\<rparr>"
    unfolding L1_def by code_simp
  have b1: "lastTok L2 = DIV"
    unfolding L2_def by code_simp
  have b2: "list_all regex_item_ok ab"
    unfolding ab_def by simp
  have b3: "upcoming L2 = source_text ab @ []"
    unfolding L2_def ab_def by code_simp
  have b4: "pos (snd (ScanRegex L2)) = \<lparr>Line = 1, Column = 4\<rparr>"
    unfolding L2_def by code_simp
  have c1: "lexer_state ILLEGAL L3"
    unfolding L3_def by (intro lexer_state.intros)
  have c2: "fst (skip_blank L3) = None"
    unfolding L3_def by code_simp
  have c3: "ch (token_start L3) < 0"
    unfolding L3_def by code_simp
  have c4: "offset (token_start L3) = 2"
    unfolding L3_def by code_simp
  have c5: "src L3 = [0x61, 0x20, 0xFF]"
    unfolding L3_def by code_simp
  have c6: "pos (token_start L3) = \<lparr>Line = 1, Column = 3\<rparr>"
    unfolding L3_def by code_simp
  have d1: "fst (skip_blank L4) = None"
    unfolding L4_def by code_simp
  have d2: "ch (token_start L4) = rune_of CHR ''&''"
    unfolding L4_def by code_simp
  have d3: "ch (next_ch (token_start L4)) = rune_of CHR '' ''"
    unfolding L4_def by code_simp
  have d4: "pos (next_ch (token_start L4)) = \<lparr>Line = 1, Column = 2\<rparr>"
    unfolding L4_def by code_simp
  have e1: "fst (skip_blank L5) = None"
    unfolding L5_def by code_simp
  have e2: "ch (token_start L5) = rune_of CHR ''@''"
    unfolding L5_def by code_simp
  have e3: "\<not> token_char (rune_of CHR ''@'')"
    by (simp add: token_char_def isNameStart_def isDigit_def)
  have e4: "pos (token_start L5) = \<lparr>Line = 1, Column = 1\<rparr>"
    unfolding L5_def by code_simp
  have f1: "has_invalid [0x61, 0x20, 0xFF]"
    by code_simp
  from lexical_errors [where l = L1 and q = "rune_of CHR 0x22" and items = ab and stop = "[]"]
    a1 a2 a3 a4
  have r1: "fst (Scan L1) =
      (\<lparr>Line = 1, Column = 4\<rparr>, ILLEGAL, lit ''didn't find end quote in string'')"
    by simp
  from lexical_errors [where l = L2 and items = ab and stop = "[]"] b1 b2 b3 b4
  have r2: "fst (ScanRegex L2) =
      (\<lparr>Line = 1, Column = 4\<rparr>, ILLEGAL, lit ''didn't find end slash in regex'')"
    by simp
  from lexical_errors [of L3 _ _ _ ILLEGAL] c1 c2 c3 c4 c5 c6
  have r3: "fst (Scan L3) =
      (\<lparr>Line = 1, Column = 3\<rparr>, ILLEGAL, Sprintf ''invalid UTF-8 byte 0x%02x'' [ArgByte 0xFF])"
    by simp
  from lexical_errors [where l = L4] d1 d2 d3 d4
  have r4: "fst (Scan L4) =
      (\<lparr>Line = 1, Column = 2\<rparr>, ILLEGAL,
       Sprintf (''unexpected %q after '' @ [CHR 0x27, CHR ''&'', CHR 0x27])
         [ArgRune (rune_of CHR '' '')])"
    by simp
  from lexical_errors [where l = L5] e1 e2 e3 e4
  have r5: "fst (Scan L5) =
      (\<lparr>Line = 1, Column = 1\<rparr>, ILLEGAL, Sprintf ''unexpected %q'' [ArgRune (rune_of CHR ''@'')])"
    by simp
  from lexical_errors [of _ _ _ _ ILLEGAL "[0x61, 0x20, 0xFF]"] f1
  have r6: "\<exists>rs. scan_all 4 (NewLexer ILLEGAL [0x61, 0x20, 0xFF]) = Some rs \<and> rs \<noteq> []
      \<and> fst (snd (last rs)) = ILLEGAL \<and> list_all (\<lambda>r. fst (snd r) \<noteq> EOF) rs"
    by (simp add: eval_nat_numeral)
  show ?thesis
    using r1 b1 r2 c1 r3 r4 r5 f1 r6
    unfolding L1_def L2_def L3_def L4_def L5_def by blast
qed

text \<open>
  The claim as stated fails for the unterminated regex: on the source \<open>/ab\<close> the calls of
  \<open>Scan\<close> return \<open>DIV\<close>, the name \<open>ab\<close> and \<open>EOF\<close>, and no \<open>ILLEGAL\<close>. It is
  \<open>ScanRegex\<close>, after the \<open>DIV\<close>, that reports it (the second case above).
\<close>

theorem lexical_errors_counterexample:
  "scan_all 4 (NewLexer ILLEGAL (bytes_of ''/ab'')) =
     Some [(\<lparr>Line = 1, Column = 1\<rparr>, DIV, Str []),
           (\<lparr>Line = 1, Column = 2\<rparr>, NAME, Str (map rune_of ''ab'')),
           (\<lparr>Line = 1, Column = 4\<rparr>, EOF, Str [])]"
  by code_simp

subsection \<open>C9: positions are one-based\<close>

text \<open>
  C9. Whatever the source, and however \<open>Scan\<close> and \<open>ScanRegex\<close> have been called
  before, the position that \<open>Scan\<close> returns and the position that \<open>ScanRegex\<close> returns
  have a line and a column of at least 1, the rewound position of \<open>ScanRegex\<close> too. This
  needs the zero value of \<open>Token\<close>, the \<open>lastTok\<close> of a new lexer, to be neither \<open>DIV\<close>
  nor \<open>DIV_ASSIGN\<close>.
\<close>

theorem positions_one_based:
  assumes "tok0 \<noteq> DIV" and "tok0 \<noteq> DIV_ASSIGN" and "lexer_state tok0 l"
  shows "pos_ok (pos_of (Scan l)) \<and> pos_ok (pos_of (ScanRegex l))"
proof -
  from lexer_state_inv [OF assms] have i: "pos_inv l" "after_slash l"
    by simp_all
  show ?thesis
    using scan_pos_inv(2) [OF i(1)] scanRegex_pos [OF i]
    by (simp add: pos_of_def Scan_fst ScanRegex_fst)
qed

text \<open>On the source \<open>/=a/\<close>, after the \<open>DIV_ASSIGN\<close>: the regex is at column 1.\<close>

theorem positions_one_based_witness:
  "ILLEGAL \<noteq> DIV \<and> ILLEGAL \<noteq> DIV_ASSIGN \<and>
   lexer_state ILLEGAL (snd (Scan (NewLexer ILLEGAL (bytes_of ''/=a/'')))) \<and>
   pos_ok (pos_of (Scan (snd (Scan (NewLexer ILLEGAL (bytes_of ''/=a/'')))))) \<and>
   pos_ok (pos_of (ScanRegex (snd (Scan (NewLexer ILLEGAL (bytes_of ''/=a/'')))))) \<and>
   pos_of (ScanRegex (snd (Scan (NewLexer ILLEGAL (bytes_of ''/=a/''))))) =
     \<lparr>Line = 1, Column = 1\<rparr>"
proof -
  have s: "lexer_state ILLEGAL (snd (Scan (NewLexer ILLEGAL (bytes_of ''/=a/''))))"
    by (intro lexer_state.intros)
  have p: "pos_of (ScanRegex (snd (Scan (NewLexer ILLEGAL (bytes_of ''/=a/''))))) =
      \<lparr>Line = 1, Column = 1\<rparr>"
    by code_simp
  from positions_one_based [OF _ _ s] s p show ?thesis
    by simp
qed

text \<open>
  Were \<open>DIV\<close> the zero value of \<open>Token\<close>, \<open>ScanRegex\<close> on a new lexer would return
  column 0.
\<close>

lemma zero_token_DIV:
  "pos_of (ScanRegex (NewLexer DIV (bytes_of ''a/''))) = \<lparr>Line = 1, Column = 0\<rparr>"
  by code_simp

subsection \<open>C10: single-quoted strings\<close>



end
